theory Spec2Isabelle
  imports Main "HOL-Library.AList"
begin

section \<open>Characters, errors and the automaton record\<close>

text \<open>
  A Python string is a sequence of Unicode code points, so a character is modelled by its
  code point. The expression language uses two characters outside ASCII: the explicit
  concatenation operator (U+00B7) and the empty-string marker (U+03B5).
\<close>

type_synonym sym = nat

abbreviation c_hash :: sym where "c_hash \<equiv> 35"
abbreviation c_lparen :: sym where "c_lparen \<equiv> 40"
abbreviation c_rparen :: sym where "c_rparen \<equiv> 41"
abbreviation c_star :: sym where "c_star \<equiv> 42"
abbreviation c_plus :: sym where "c_plus \<equiv> 43"
abbreviation c_opt :: sym where "c_opt \<equiv> 63"
abbreviation c_bar :: sym where "c_bar \<equiv> 124"
abbreviation c_dot :: sym where "c_dot \<equiv> 183"
abbreviation c_eps :: sym where "c_eps \<equiv> 949"

text \<open>An ASCII string literal as a Python string.\<close>

definition str :: "string \<Rightarrow> sym list" where
  "str s = map of_char s"

text \<open>
  The exceptions of the source. \<open>ValueError\<close> is the one the program raises itself;
  \<open>IndexError\<close>, \<open>AttributeError\<close> and \<open>KeyError\<close> are what Python raises on
  \<open>regex[-1]\<close> of an empty string, on an attribute of \<open>None\<close> and on a missing dictionary
  key. \<open>NonePosition\<close> is no Python exception: it marks the one place
  (\<open>{node.position}\<close> of a node without a position) where the source would put \<open>None\<close>
  into a set of positions, which the position sets of this model cannot hold.
\<close>

datatype error = ValueError | IndexError | AttributeError | KeyError | NonePosition

text \<open>A loop over a list whose body may raise: the first error ends the loop.\<close>

fun foldE :: "('a \<Rightarrow> 's \<Rightarrow> error + 's) \<Rightarrow> 'a list \<Rightarrow> 's \<Rightarrow> error + 's" where
  "foldE f [] s = Inr s"
| "foldE f (x # xs) s = (case f x s of Inl e \<Rightarrow> Inl e | Inr s' \<Rightarrow> foldE f xs s')"

text \<open>
  class Node: the character, the two children (\<open>None\<close> when absent), the three attributes
  and the position. \<open>nullable\<close> starts as \<open>None\<close> and the two sets start empty.
\<close>

datatype node = Node (data: sym) (left: "node option") (right: "node option")
  (nullable: "bool option") (firstpos: "nat set") (lastpos: "nat set")
  (position: "nat option")

text \<open>
  The dictionary stored in \<open>self.dfa\<close> and \<open>self.minimized_dfa\<close>. The transition
  dictionary is an association list in insertion order, because \<open>minimize_dfa\<close> iterates
  over its items.
\<close>

record automaton =
  states :: nat
  initial :: nat
  final_states :: "nat set"
  transitions :: "((nat \<times> sym) \<times> nat) list"

text \<open>
  class RegexToDFA. \<open>alphabet\<close> is a Python set; the list holds its elements in the order
  in which Python iterates over it, which the language does not fix. \<open>pos_to_symbol\<close> is a
  dictionary in insertion order, \<open>followpos\<close> a \<open>defaultdict(set)\<close>.
\<close>

record regex_to_dfa =
  original_regex :: "sym list"
  augmented_regex :: "sym list"
  alphabet :: "sym list"
  pos_to_symbol :: "(nat \<times> sym) list"
  next_pos :: nat
  followpos :: "nat \<Rightarrow> nat set"
  syntax_tree :: "node option"
  dfa :: "automaton option"
  minimized_dfa :: "automaton option"

text \<open>The characters \<open>__init__\<close> leaves out of the alphabet: \<open>()*|+?\<close>, U+00B7 and \<open>#\<close>.\<close>

definition metachars :: "sym list" where
  "metachars = [c_lparen, c_rparen, c_star, c_bar, c_plus, c_opt, c_dot, c_hash]"

text \<open>
  \<open>sigma\<close> is an iteration order of the set \<open>self.alphabet\<close> built by \<open>__init__\<close>.
\<close>

definition alphabet_order :: "sym list \<Rightarrow> sym list \<Rightarrow> bool" where
  "alphabet_order regex sigma \<longleftrightarrow>
     distinct sigma \<and> set sigma = {c \<in> set regex. c \<notin> set metachars}"

definition init :: "sym list \<Rightarrow> sym list \<Rightarrow> regex_to_dfa" where
  "init sigma regex =
     \<lparr>original_regex = regex,
      augmented_regex = [c_lparen] @ regex @ [c_rparen, c_hash],
      alphabet = sigma,
      pos_to_symbol = [],
      next_pos = 1,
      followpos = (\<lambda>p. {}),
      syntax_tree = None,
      dfa = None,
      minimized_dfa = None\<rparr>"

section \<open>infix_to_postfix\<close>

text \<open>Lines 47-54: the pass that writes the concatenation operator out.\<close>

definition explicit_concat :: "sym list \<Rightarrow> error + sym list" where
  "explicit_concat regex =
     (if regex = [] then Inl IndexError
      else Inr (concat (map (\<lambda>i. regex ! i #
                  (if regex ! i \<notin> set [c_lparen, c_bar] \<and>
                      regex ! (i + 1) \<notin> set [c_rparen, c_bar, c_star, c_plus, c_opt]
                   then [c_dot] else []))
                [0..<length regex - 1]) @ [last regex]))"

text \<open>\<open>precedence.get(c, 0)\<close>.\<close>

definition precedence :: "sym \<Rightarrow> nat" where
  "precedence c =
     (if c = c_bar then 1 else if c = c_dot then 2
      else if c = c_star \<or> c = c_plus \<or> c = c_opt then 3 else 0)"

text \<open>
  The operator stack is a Python list whose top is its last element; here the top is the
  head of the list. The output is a list that grows at its end.
\<close>

fun pop_to_lparen :: "sym list \<Rightarrow> sym list \<Rightarrow> sym list \<times> sym list" where
  "pop_to_lparen output [] = (output, [])"
| "pop_to_lparen output (t # stack) =
     (if t \<noteq> c_lparen then pop_to_lparen (output @ [t]) stack else (output, t # stack))"

fun pop_operators :: "sym \<Rightarrow> sym list \<Rightarrow> sym list \<Rightarrow> sym list \<times> sym list" where
  "pop_operators char output [] = (output, [])"
| "pop_operators char output (t # stack) =
     (if t \<noteq> c_lparen \<and> precedence t \<ge> precedence char
      then pop_operators char (output @ [t]) stack else (output, t # stack))"

definition shunt :: "sym \<Rightarrow> sym list \<times> sym list \<Rightarrow> sym list \<times> sym list" where
  "shunt char s =
     (case s of (output, stack) \<Rightarrow>
        if char \<notin> set [c_lparen, c_rparen, c_bar, c_star, c_plus, c_opt, c_dot]
        then (output @ [char], stack)
        else if char = c_lparen then (output, char # stack)
        else if char = c_rparen then
          (case pop_to_lparen output stack of
             (output', stack') \<Rightarrow>
               (case stack' of [] \<Rightarrow> (output', [])
                | t # rest \<Rightarrow> if t = c_lparen then (output', rest) else (output', stack')))
        else
          (case pop_operators char output stack of
             (output', stack') \<Rightarrow> (output', char # stack')))"

definition infix_to_postfix :: "sym list \<Rightarrow> error + sym list" where
  "infix_to_postfix regex =
     (case explicit_concat regex of
        Inl e \<Rightarrow> Inl e
      | Inr explicit_regex \<Rightarrow>
          (case fold shunt explicit_regex ([], []) of
             (output, stack) \<Rightarrow> Inr (output @ stack)))"

section \<open>build_syntax_tree\<close>

text \<open>
  One token of the postfix string. The state is the node stack (top at the head),
  \<open>self.pos_to_symbol\<close> and \<open>self.next_pos\<close>.
\<close>

definition build_token ::
  "sym \<Rightarrow> node list \<times> (nat \<times> sym) list \<times> nat \<Rightarrow>
     error + node list \<times> (nat \<times> sym) list \<times> nat" where
  "build_token char s =
     (case s of (stack, p2s, np) \<Rightarrow>
        if char \<in> set [c_star, c_plus, c_opt] then
          (case stack of
             [] \<Rightarrow> Inl ValueError
           | c # rest \<Rightarrow> Inr (Node char (Some c) None None {} {} None # rest, p2s, np))
        else if char \<in> set [c_bar, c_dot] then
          (case stack of
             r # l # rest \<Rightarrow>
               Inr (Node char (Some l) (Some r) None {} {} None # rest, p2s, np)
           | _ \<Rightarrow> Inl ValueError)
        else if char \<noteq> c_eps then
          Inr (Node char None None None {} {} (Some np) # stack,
               AList.update np char p2s, np + 1)
        else Inr (Node char None None None {} {} None # stack, p2s, np))"

definition build_syntax_tree ::
  "sym list \<Rightarrow> regex_to_dfa \<Rightarrow> error + node \<times> regex_to_dfa" where
  "build_syntax_tree postfix st =
     (case foldE build_token postfix ([], pos_to_symbol st, next_pos st) of
        Inl e \<Rightarrow> Inl e
      | Inr (stack, p2s, np) \<Rightarrow>
          if length stack \<noteq> 1 then Inl ValueError
          else Inr (last stack, st\<lparr>pos_to_symbol := p2s, next_pos := np\<rparr>))"

section \<open>calculate_tree_properties\<close>

text \<open>Truth value of an attribute that may still be \<open>None\<close>, and Python's \<open>or\<close>, \<open>and\<close>.\<close>

definition truthy :: "bool option \<Rightarrow> bool" where
  "truthy b \<longleftrightarrow> b = Some True"

text \<open>
  Lines 126-138. \<open>l\<close> and \<open>r\<close> are the children after their own evaluation; \<open>nu\<close> is the
  value the attribute had, kept when no branch applies.
\<close>

definition calc_nullable ::
  "sym set \<Rightarrow> sym \<Rightarrow> node option \<Rightarrow> node option \<Rightarrow> bool option \<Rightarrow> error + bool option" where
  "calc_nullable A d l r nu =
     (if d = c_eps then Inr (Some True)
      else if d \<in> A \<or> d = c_hash then Inr (Some False)
      else if d = c_bar then
        (case l of None \<Rightarrow> Inl AttributeError
         | Some ln \<Rightarrow>
             if truthy (nullable ln) then Inr (nullable ln)
             else (case r of None \<Rightarrow> Inl AttributeError | Some rn \<Rightarrow> Inr (nullable rn)))
      else if d = c_dot then
        (case l of None \<Rightarrow> Inl AttributeError
         | Some ln \<Rightarrow>
             if truthy (nullable ln)
             then (case r of None \<Rightarrow> Inl AttributeError | Some rn \<Rightarrow> Inr (nullable rn))
             else Inr (nullable ln))
      else if d \<in> set [c_star, c_opt] then Inr (Some True)
      else if d = c_plus then
        (case l of None \<Rightarrow> Inl AttributeError | Some ln \<Rightarrow> Inr (nullable ln))
      else Inr nu)"

text \<open>Lines 140-153.\<close>

definition calc_firstpos ::
  "sym set \<Rightarrow> sym \<Rightarrow> node option \<Rightarrow> node option \<Rightarrow> nat option \<Rightarrow> nat set \<Rightarrow>
     error + nat set" where
  "calc_firstpos A d l r pos fp =
     (if d = c_eps then Inr {}
      else if d \<in> A \<or> d = c_hash then
        (case pos of None \<Rightarrow> Inl NonePosition | Some p \<Rightarrow> Inr {p})
      else if d = c_bar then
        (case l of None \<Rightarrow> Inl AttributeError
         | Some ln \<Rightarrow>
             (case r of None \<Rightarrow> Inl AttributeError
              | Some rn \<Rightarrow> Inr (firstpos ln \<union> firstpos rn)))
      else if d = c_dot then
        (case l of None \<Rightarrow> Inl AttributeError
         | Some ln \<Rightarrow>
             if truthy (nullable ln)
             then (case r of None \<Rightarrow> Inl AttributeError
                   | Some rn \<Rightarrow> Inr (firstpos ln \<union> firstpos rn))
             else Inr (firstpos ln))
      else if d \<in> set [c_star, c_plus, c_opt] then
        (case l of None \<Rightarrow> Inl AttributeError | Some ln \<Rightarrow> Inr (firstpos ln))
      else Inr fp)"

text \<open>Lines 155-168.\<close>

definition calc_lastpos ::
  "sym set \<Rightarrow> sym \<Rightarrow> node option \<Rightarrow> node option \<Rightarrow> nat option \<Rightarrow> nat set \<Rightarrow>
     error + nat set" where
  "calc_lastpos A d l r pos lp =
     (if d = c_eps then Inr {}
      else if d \<in> A \<or> d = c_hash then
        (case pos of None \<Rightarrow> Inl NonePosition | Some p \<Rightarrow> Inr {p})
      else if d = c_bar then
        (case l of None \<Rightarrow> Inl AttributeError
         | Some ln \<Rightarrow>
             (case r of None \<Rightarrow> Inl AttributeError
              | Some rn \<Rightarrow> Inr (lastpos ln \<union> lastpos rn)))
      else if d = c_dot then
        (case r of None \<Rightarrow> Inl AttributeError
         | Some rn \<Rightarrow>
             if truthy (nullable rn)
             then (case l of None \<Rightarrow> Inl AttributeError
                   | Some ln \<Rightarrow> Inr (lastpos ln \<union> lastpos rn))
             else Inr (lastpos rn))
      else if d \<in> set [c_star, c_plus, c_opt] then
        (case l of None \<Rightarrow> Inl AttributeError | Some ln \<Rightarrow> Inr (lastpos ln))
      else Inr lp)"

text \<open>The three assignments of one node, in the order of the source.\<close>

definition set_attributes ::
  "sym set \<Rightarrow> sym \<Rightarrow> node option \<Rightarrow> node option \<Rightarrow> bool option \<Rightarrow> nat set \<Rightarrow> nat set \<Rightarrow>
     nat option \<Rightarrow> error + node" where
  "set_attributes A d l r nu fp lp pos =
     (case calc_nullable A d l r nu of
        Inl e \<Rightarrow> Inl e
      | Inr nu' \<Rightarrow>
          (case calc_firstpos A d l r pos fp of
             Inl e \<Rightarrow> Inl e
           | Inr fp' \<Rightarrow>
               (case calc_lastpos A d l r pos lp of
                  Inl e \<Rightarrow> Inl e
                | Inr lp' \<Rightarrow> Inr (Node d l r nu' fp' lp' pos))))"

text \<open>
  The post-order pass. The source mutates the nodes in place; the tree shares no node, so
  the model returns the tree with the attributes filled in.
\<close>

fun calculate_tree_properties :: "sym set \<Rightarrow> node \<Rightarrow> error + node" where
  "calculate_tree_properties A (Node d l r nu fp lp pos) =
     (case l of
        None \<Rightarrow>
          (case r of
             None \<Rightarrow> set_attributes A d None None nu fp lp pos
           | Some rn \<Rightarrow>
               (case calculate_tree_properties A rn of
                  Inl e \<Rightarrow> Inl e
                | Inr rn' \<Rightarrow> set_attributes A d None (Some rn') nu fp lp pos))
      | Some ln \<Rightarrow>
          (case calculate_tree_properties A ln of
             Inl e \<Rightarrow> Inl e
           | Inr ln' \<Rightarrow>
               (case r of
                  None \<Rightarrow> set_attributes A d (Some ln') None nu fp lp pos
                | Some rn \<Rightarrow>
                    (case calculate_tree_properties A rn of
                       Inl e \<Rightarrow> Inl e
                     | Inr rn' \<Rightarrow> set_attributes A d (Some ln') (Some rn') nu fp lp pos))))"

section \<open>calculate_followpos\<close>

text \<open>\<open>for i in ps: followpos[i] = followpos[i].union(qs)\<close>.\<close>

definition add_follow :: "nat set \<Rightarrow> nat set \<Rightarrow> (nat \<Rightarrow> nat set) \<Rightarrow> nat \<Rightarrow> nat set" where
  "add_follow ps qs F = (\<lambda>p. if p \<in> ps then F p \<union> qs else F p)"

text \<open>
  The two rules applied at one node (lines 174-182). In the concatenation rule the right
  child is read inside the loop, so a missing right child raises only when the left child
  has a last position.
\<close>

definition follow_rules :: "node \<Rightarrow> (nat \<Rightarrow> nat set) \<Rightarrow> error + (nat \<Rightarrow> nat set)" where
  "follow_rules n F =
     (case (if data n = c_dot then
              (case left n of
                 None \<Rightarrow> Inl AttributeError
               | Some ln \<Rightarrow>
                   if lastpos ln = {} then Inr F
                   else (case right n of
                           None \<Rightarrow> Inl AttributeError
                         | Some rn \<Rightarrow> Inr (add_follow (lastpos ln) (firstpos rn) F)))
            else Inr F) of
        Inl e \<Rightarrow> Inl e
      | Inr F1 \<Rightarrow>
          if data n \<in> set [c_star, c_plus]
          then Inr (add_follow (lastpos n) (firstpos n) F1) else Inr F1)"

fun calculate_followpos :: "node \<Rightarrow> (nat \<Rightarrow> nat set) \<Rightarrow> error + (nat \<Rightarrow> nat set)" where
  "calculate_followpos (Node d l r nu fp lp pos) F =
     (case follow_rules (Node d l r nu fp lp pos) F of
        Inl e \<Rightarrow> Inl e
      | Inr F1 \<Rightarrow>
          (case (case l of None \<Rightarrow> Inr F1 | Some ln \<Rightarrow> calculate_followpos ln F1) of
             Inl e \<Rightarrow> Inl e
           | Inr F2 \<Rightarrow> (case r of None \<Rightarrow> Inr F2 | Some rn \<Rightarrow> calculate_followpos rn F2)))"

section \<open>parse_regex\<close>

definition parse_regex :: "regex_to_dfa \<Rightarrow> error + regex_to_dfa" where
  "parse_regex st =
     (case infix_to_postfix (augmented_regex st) of
        Inl e \<Rightarrow> Inl e
      | Inr postfix \<Rightarrow>
          (case build_syntax_tree postfix st of
             Inl e \<Rightarrow> Inl e
           | Inr (tree, st1) \<Rightarrow>
               (case calculate_tree_properties (set (alphabet st1)) tree of
                  Inl e \<Rightarrow> Inl e
                | Inr tree' \<Rightarrow>
                    (case calculate_followpos tree' (followpos st1) of
                       Inl e \<Rightarrow> Inl e
                     | Inr F \<Rightarrow> Inr (st1\<lparr>syntax_tree := Some tree', followpos := F\<rparr>)))))"

section \<open>construct_dfa\<close>

text \<open>
  Move(state, symbol) of lines 219-222: the union of \<open>followpos[pos]\<close> over the positions
  of the state that \<open>pos_to_symbol\<close> maps to the symbol.
\<close>

definition move :: "regex_to_dfa \<Rightarrow> nat set \<Rightarrow> sym \<Rightarrow> nat set" where
  "move st current_state symbol =
     \<Union> (followpos st `
          Set.filter (\<lambda>pos. map_of (pos_to_symbol st) pos = Some symbol) current_state)"

text \<open>
  The body of the loop over the alphabet (lines 217-237). \<open>sts\<close> is the dictionary
  \<open>states\<close> from position sets to state numbers, in insertion order.
\<close>

definition expand_symbol ::
  "regex_to_dfa \<Rightarrow> nat set \<Rightarrow> sym \<Rightarrow>
     (nat set \<times> nat) list \<times> nat set list \<times> ((nat \<times> sym) \<times> nat) list \<Rightarrow>
     error + (nat set \<times> nat) list \<times> nat set list \<times> ((nat \<times> sym) \<times> nat) list" where
  "expand_symbol st current_state symbol s =
     (case s of (sts, unmarked_states, trns) \<Rightarrow>
        let next_state = move st current_state symbol in
        if next_state = {} then Inr (sts, unmarked_states, trns)
        else
          let (sts', unmarked') =
                (if map_of sts next_state = None
                 then (AList.update next_state (length sts) sts,
                       unmarked_states @ [next_state])
                 else (sts, unmarked_states)) in
          (case map_of sts' current_state of
             None \<Rightarrow> Inl KeyError
           | Some src \<Rightarrow>
               (case map_of sts' next_state of
                  None \<Rightarrow> Inl KeyError
                | Some dest \<Rightarrow>
                    Inr (sts', unmarked', AList.update (src, symbol) dest trns))))"

text \<open>Lines 213-214.\<close>

definition mark_final ::
  "nat \<Rightarrow> nat set \<Rightarrow> (nat set \<times> nat) list \<Rightarrow> nat set \<Rightarrow> error + nat set" where
  "mark_final end_pos current_state sts finals =
     (if end_pos \<in> current_state then
        (case map_of sts current_state of
           None \<Rightarrow> Inl KeyError
         | Some i \<Rightarrow> Inr (insert i finals))
      else Inr finals)"

text \<open>
  The worklist loop of lines 209-237. Nothing in its text bounds the number of rounds, so
  a run that never ends is the value \<open>None\<close>.
\<close>

partial_function (option) construct_loop ::
  "regex_to_dfa \<Rightarrow> nat \<Rightarrow>
     (nat set \<times> nat) list \<times> nat set list \<times> ((nat \<times> sym) \<times> nat) list \<times> nat set \<Rightarrow>
     (error + (nat set \<times> nat) list \<times> ((nat \<times> sym) \<times> nat) list \<times> nat set) option" where
  "construct_loop st end_pos s =
     (case s of (sts, unmarked_states, trns, finals) \<Rightarrow>
        (case unmarked_states of
           [] \<Rightarrow> Some (Inr (sts, trns, finals))
         | current_state # rest \<Rightarrow>
             (case mark_final end_pos current_state sts finals of
                Inl e \<Rightarrow> Some (Inl e)
              | Inr finals' \<Rightarrow>
                  (case foldE (expand_symbol st current_state) (alphabet st)
                          (sts, rest, trns) of
                     Inl e \<Rightarrow> Some (Inl e)
                   | Inr (sts', unmarked', trns') \<Rightarrow>
                       construct_loop st end_pos (sts', unmarked', trns', finals')))))"

declare construct_loop.simps [code]

text \<open>Lines 199-206: the first position, in insertion order, that is mapped to \<open>#\<close>.\<close>

definition find_end_pos :: "(nat \<times> sym) list \<Rightarrow> nat option" where
  "find_end_pos p2s = map_option fst (find (\<lambda>(pos, symbol). symbol = c_hash) p2s)"

text \<open>
  The table the loop ends with: the dictionary \<open>states\<close>, the transitions and the final
  states. \<open>construct_dfa\<close> keeps the size of \<open>states\<close> and drops the dictionary.
\<close>

definition construct_table ::
  "regex_to_dfa \<Rightarrow>
     (error + (nat set \<times> nat) list \<times> ((nat \<times> sym) \<times> nat) list \<times> nat set) option" where
  "construct_table st =
     (case syntax_tree st of
        None \<Rightarrow> Some (Inl AttributeError)
      | Some root \<Rightarrow>
          (case find_end_pos (pos_to_symbol st) of
             None \<Rightarrow> Some (Inl ValueError)
           | Some end_pos \<Rightarrow>
               construct_loop st end_pos
                 ([(firstpos root, 0)], [firstpos root], [], {})))"

definition construct_dfa :: "regex_to_dfa \<Rightarrow> (error + regex_to_dfa) option" where
  "construct_dfa st =
     (case construct_table st of
        None \<Rightarrow> None
      | Some (Inl e) \<Rightarrow> Some (Inl e)
      | Some (Inr (sts, trns, finals)) \<Rightarrow>
          Some (Inr (st\<lparr>dfa := Some \<lparr>states = length sts, initial = 0,
                                     final_states = finals, transitions = trns\<rparr>\<rparr>)))"

section \<open>minimize_dfa\<close>

text \<open>Lines 276-279.\<close>

definition predecessors :: "automaton \<Rightarrow> nat set \<Rightarrow> sym \<Rightarrow> nat set" where
  "predecessors d current_set symbol =
     Set.filter (\<lambda>state. case map_of (transitions d) (state, symbol) of
                           None \<Rightarrow> False
                         | Some dest \<Rightarrow> dest \<in> current_set)
       (set [0..<states d])"

text \<open>
  The body of the loop over the partitions (lines 283-302); \<open>block\<close> is the variable
  \<open>partition\<close> of the source, and the state is
  \<open>new_partitions\<close> and the worklist.
\<close>

definition split_partition ::
  "nat set \<Rightarrow> nat set \<Rightarrow> nat set list \<times> nat set list \<Rightarrow> nat set list \<times> nat set list" where
  "split_partition preds block s =
     (case s of (new_partitions, workset) \<Rightarrow>
        let intersection = block \<inter> preds; difference = block - preds in
        if intersection \<noteq> {} \<and> difference \<noteq> {} then
          (new_partitions @ [intersection, difference],
           if block \<in> set workset
           then remove1 block workset @ [intersection, difference]
           else if card intersection \<le> card difference
                then workset @ [intersection] else workset @ [difference])
        else (new_partitions @ [block], workset))"

text \<open>The body of the loop over the alphabet (lines 274-304).\<close>

definition refine_symbol ::
  "automaton \<Rightarrow> nat set \<Rightarrow> sym \<Rightarrow> nat set list \<times> nat set list \<Rightarrow>
     nat set list \<times> nat set list" where
  "refine_symbol d current_set symbol s =
     (case s of (partitions, workset) \<Rightarrow>
        fold (split_partition (predecessors d current_set symbol)) partitions ([], workset))"

text \<open>The loop of lines 271-304 over the worklist.\<close>

partial_function (option) refine_loop ::
  "automaton \<Rightarrow> sym list \<Rightarrow> nat set list \<times> nat set list \<Rightarrow> nat set list option" where
  "refine_loop d sigma s =
     (case s of (partitions, workset) \<Rightarrow>
        (case workset of
           [] \<Rightarrow> Some partitions
         | current_set # rest \<Rightarrow>
             refine_loop d sigma (fold (refine_symbol d current_set) sigma (partitions, rest))))"

declare refine_loop.simps [code]

text \<open>
  Lines 308-311: \<open>state_mapping[state] = i\<close> for every state of partition number \<open>i\<close>, the
  partitions taken in order, so a later block overwrites an earlier one.
\<close>

definition state_mapping :: "nat set list \<Rightarrow> nat \<Rightarrow> nat option" where
  "state_mapping partitions =
     fold (\<lambda>(i, block) m. (\<lambda>state. if state \<in> block then Some i else m state))
       (enumerate 0 partitions) (\<lambda>state. None)"

text \<open>Lines 315-318, one item of the transition dictionary.\<close>

definition map_transition ::
  "(nat \<Rightarrow> nat option) \<Rightarrow> (nat \<times> sym) \<times> nat \<Rightarrow> ((nat \<times> sym) \<times> nat) list \<Rightarrow>
     error + ((nat \<times> sym) \<times> nat) list" where
  "map_transition m item new_transitions =
     (case item of ((src, symbol), dest) \<Rightarrow>
        (case m src of
           None \<Rightarrow> Inl KeyError
         | Some new_src \<Rightarrow>
             (case m dest of
                None \<Rightarrow> Inl KeyError
              | Some new_dest \<Rightarrow>
                  Inr (AList.update (new_src, symbol) new_dest new_transitions))))"

text \<open>Lines 306-334: the automaton built from the final partitions.\<close>

definition quotient_dfa :: "automaton \<Rightarrow> nat set list \<Rightarrow> error + automaton" where
  "quotient_dfa d partitions =
     (let m = state_mapping partitions in
      case foldE (map_transition m) (transitions d) [] of
        Inl e \<Rightarrow> Inl e
      | Inr new_transitions \<Rightarrow>
          if \<exists>final_state \<in> final_states d. m final_state = None then Inl KeyError
          else
            (case m (initial d) of
               None \<Rightarrow> Inl KeyError
             | Some new_initial \<Rightarrow>
                 Inr \<lparr>states = length partitions, initial = new_initial,
                      final_states = (\<lambda>final_state. the (m final_state)) ` final_states d,
                      transitions = new_transitions\<rparr>))"

definition initial_partitions :: "automaton \<Rightarrow> nat set list" where
  "initial_partitions d =
     filter (\<lambda>p. p \<noteq> {}) [set [0..<states d] - final_states d, final_states d]"

definition minimize_dfa :: "regex_to_dfa \<Rightarrow> (error + regex_to_dfa) option" where
  "minimize_dfa st =
     (case dfa st of
        None \<Rightarrow> Some (Inl ValueError)
      | Some d \<Rightarrow>
          (case refine_loop d (alphabet st)
                  (initial_partitions d, filter (\<lambda>p. p \<noteq> {}) (initial_partitions d)) of
             None \<Rightarrow> None
           | Some partitions \<Rightarrow>
               (case quotient_dfa d partitions of
                  Inl e \<Rightarrow> Some (Inl e)
                | Inr md \<Rightarrow> Some (Inr (st\<lparr>minimized_dfa := Some md\<rparr>)))))"

section \<open>simulate_dfa and process\<close>

text \<open>The loop of lines 348-357, from the state \<open>current_state\<close>.\<close>

fun run_dfa :: "sym list \<Rightarrow> automaton \<Rightarrow> nat \<Rightarrow> sym list \<Rightarrow> bool" where
  "run_dfa sigma d current_state [] = (current_state \<in> final_states d)"
| "run_dfa sigma d current_state (char # input_string) =
     (if char \<notin> set sigma then False
      else (case map_of (transitions d) (current_state, char) of
              Some next_state \<Rightarrow> run_dfa sigma d next_state input_string
            | None \<Rightarrow> False))"

definition simulate_dfa :: "regex_to_dfa \<Rightarrow> sym list \<Rightarrow> bool \<Rightarrow> error + bool" where
  "simulate_dfa st input_string minimized =
     (if minimized \<and> minimized_dfa st \<noteq> None then
        Inr (run_dfa (alphabet st) (the (minimized_dfa st)) (initial (the (minimized_dfa st)))
               input_string)
      else if dfa st \<noteq> None then
        Inr (run_dfa (alphabet st) (the (dfa st)) (initial (the (dfa st))) input_string)
      else Inl ValueError)"

definition process :: "regex_to_dfa \<Rightarrow> (error + regex_to_dfa) option" where
  "process st =
     (case parse_regex st of
        Inl e \<Rightarrow> Some (Inl e)
      | Inr st1 \<Rightarrow>
          (case construct_dfa st1 of
             None \<Rightarrow> None
           | Some (Inl e) \<Rightarrow> Some (Inl e)
           | Some (Inr st2) \<Rightarrow> minimize_dfa st2))"

text \<open>
  main, lines 521-541: compile the expression, then test strings with the default
  \<open>minimized=True\<close>. The result also carries the number of states of the minimized
  automaton.
\<close>

definition compile_and_test ::
  "sym list \<Rightarrow> sym list \<Rightarrow> sym list list \<Rightarrow> (error + nat option \<times> (error + bool) list) option" where
  "compile_and_test sigma regex ws =
     (case process (init sigma regex) of
        None \<Rightarrow> None
      | Some (Inl e) \<Rightarrow> Some (Inl e)
      | Some (Inr st) \<Rightarrow>
          Some (Inr (map_option states (minimized_dfa st),
                     map (\<lambda>w. simulate_dfa st w True) ws)))"

section \<open>Specification-level notions\<close>

text \<open>
  The state reached from \<open>q\<close> by following the transitions of the automaton along a
  string, \<open>None\<close> when a transition is missing on the way.
\<close>

fun walk :: "automaton \<Rightarrow> nat \<Rightarrow> sym list \<Rightarrow> nat option" where
  "walk d q [] = Some q"
| "walk d q (c # w) =
     (case map_of (transitions d) (q, c) of None \<Rightarrow> None | Some q' \<Rightarrow> walk d q' w)"

text \<open>
  The explicit-concatenation pass as the specification words it: between two adjacent
  characters \<open>c1\<close>, \<open>c2\<close> the operator is inserted exactly when \<open>c1\<close> is neither \<open>(\<close> nor
  \<open>|\<close> and \<open>c2\<close> is none of \<open>)\<close>, \<open>|\<close>, \<open>*\<close>, \<open>+\<close>, \<open>?\<close>.
\<close>

definition needs_concat :: "sym \<Rightarrow> sym \<Rightarrow> bool" where
  "needs_concat c1 c2 \<longleftrightarrow>
     c1 \<noteq> c_lparen \<and> c1 \<noteq> c_bar \<and>
     c2 \<noteq> c_rparen \<and> c2 \<noteq> c_bar \<and> c2 \<noteq> c_star \<and> c2 \<noteq> c_plus \<and> c2 \<noteq> c_opt"

fun spec_insert_concat :: "sym list \<Rightarrow> sym list" where
  "spec_insert_concat (c1 # c2 # cs) =
     (if needs_concat c1 c2 then c1 # c_dot # spec_insert_concat (c2 # cs)
      else c1 # spec_insert_concat (c2 # cs))"
| "spec_insert_concat cs = cs"

text \<open>
  The tree builder seen from the size of its stack only: the number of nodes after one
  token, \<open>None\<close> when a unary operator finds no node or a binary operator fewer than two.
\<close>

definition token_depth :: "sym \<Rightarrow> nat \<Rightarrow> nat option" where
  "token_depth c n =
     (if c \<in> set [c_star, c_plus, c_opt] then (if n = 0 then None else Some n)
      else if c \<in> set [c_bar, c_dot] then (if n < 2 then None else Some (n - 1))
      else Some (Suc n))"

text \<open>The number of nodes left after all tokens, from a stack of \<open>n\<close> nodes.\<close>

fun stack_depth :: "sym list \<Rightarrow> nat \<Rightarrow> nat option" where
  "stack_depth [] n = Some n"
| "stack_depth (c # cs) n =
     (case token_depth c n of None \<Rightarrow> None | Some m \<Rightarrow> stack_depth cs m)"

text \<open>A node and all nodes below it.\<close>

fun subnodes :: "node \<Rightarrow> node list" where
  "subnodes (Node d l r nu fp lp pos) =
     Node d l r nu fp lp pos #
     (case l of None \<Rightarrow> [] | Some ln \<Rightarrow> subnodes ln) @
     (case r of None \<Rightarrow> [] | Some rn \<Rightarrow> subnodes rn)"

text \<open>
  What the evaluator leaves on a repetition node (\<open>*\<close>, \<open>+\<close>, \<open>?\<close>): both position sets are
  those of the child, each its own; \<open>nullable\<close> is true, for \<open>+\<close> that of the child.
\<close>

definition repetition_attrs :: "node \<Rightarrow> bool" where
  "repetition_attrs n \<longleftrightarrow>
     (data n \<in> {c_star, c_plus, c_opt} \<longrightarrow>
        (\<exists>c. left n = Some c \<and> firstpos n = firstpos c \<and> lastpos n = lastpos c \<and>
             nullable n = (if data n = c_plus then nullable c else Some True)))"

text \<open>The expression \<open>(ab)*\<close> after \<open>parse_regex\<close>.\<close>

definition star_ab :: "error + regex_to_dfa" where
  "star_ab = parse_regex (init [97, 98] (str ''(ab)*''))"

text \<open>
  The leaves of a tree from left to right, each with its character and its position.
\<close>

fun leaf_info :: "node \<Rightarrow> (sym \<times> nat option) list" where
  "leaf_info (Node d l r nu fp lp pos) =
     (case l of
        None \<Rightarrow> (case r of None \<Rightarrow> [(d, pos)] | Some rn \<Rightarrow> leaf_info rn)
      | Some ln \<Rightarrow> leaf_info ln @ (case r of None \<Rightarrow> [] | Some rn \<Rightarrow> leaf_info rn))"

text \<open>The leaves other than the empty-string marker.\<close>

definition numbered :: "(sym \<times> nat option) list \<Rightarrow> (sym \<times> nat option) list" where
  "numbered ls = filter (\<lambda>l. fst l \<noteq> c_eps) ls"

text \<open>The postfix tokens that \<open>build_syntax_tree\<close> takes for operators.\<close>

definition is_operator :: "sym \<Rightarrow> bool" where
  "is_operator c \<longleftrightarrow> c \<in> set [c_star, c_plus, c_opt, c_bar, c_dot]"

text \<open>
  Position assignment is a bijection: the numbered leaves carry 1, 2, ... in order, up to
  \<open>next_pos - 1\<close>, the marker leaves carry no position, and the table maps each position
  to the character of its leaf.
\<close>

definition numbering_ok :: "(sym \<times> nat option) list \<Rightarrow> (nat \<times> sym) list \<Rightarrow> nat \<Rightarrow> bool" where
  "numbering_ok ls p2s np \<longleftrightarrow>
     1 \<le> np \<and>
     map snd (numbered ls) = map Some [1..<np] \<and>
     (\<forall>l \<in> set ls. fst l = c_eps \<longrightarrow> snd l = None) \<and>
     p2s = zip [1..<np] (map fst (numbered ls))"

text \<open>
  The state with set \<open>S\<close> is in the dictionary and its transitions are those of the
  construction on the symbols \<open>syms\<close>, with no entry for any other symbol.
\<close>

definition expanded ::
  "regex_to_dfa \<Rightarrow> (nat set \<times> nat) list \<Rightarrow> ((nat \<times> sym) \<times> nat) list \<Rightarrow> nat set \<Rightarrow> sym set \<Rightarrow>
     bool" where
  "expanded st sts trns S syms \<longleftrightarrow>
     (\<exists>i. map_of sts S = Some i \<and>
        (\<forall>s. if s \<in> syms \<and> move st S s \<noteq> {}
             then map_of trns (i, s) = map_of sts (move st S s) \<and>
                  map_of sts (move st S s) \<noteq> None
             else map_of trns (i, s) = None))"

text \<open>
  The invariant of the worklist loop. \<open>cur\<close> is the state being expanded and \<open>done\<close> the
  symbols already handled for it; between two rounds \<open>done\<close> is the whole alphabet.
\<close>

definition table_inv ::
  "regex_to_dfa \<Rightarrow> nat \<Rightarrow> nat set \<Rightarrow> nat set \<Rightarrow> sym set \<Rightarrow>
     (nat set \<times> nat) list \<Rightarrow> nat set list \<Rightarrow> ((nat \<times> sym) \<times> nat) list \<Rightarrow> nat set \<Rightarrow> bool" where
  "table_inv st end_pos start cur done sts unmarked trns finals \<longleftrightarrow>
     distinct (map fst sts) \<and> map snd sts = [0..<length sts] \<and>
     map_of sts start = Some 0 \<and>
     distinct unmarked \<and> set unmarked \<subseteq> fst ` set sts \<and>
     (\<forall>S \<in> fst ` set sts.
        expanded st sts trns S
          (if S \<in> set unmarked then {} else if S = cur then done else set (alphabet st))) \<and>
     (\<forall>k \<in> fst ` set trns. fst k < length sts) \<and>
     distinct (map fst trns) \<and>
     finals = {i. \<exists>S. map_of sts S = Some i \<and> S \<notin> set unmarked \<and> end_pos \<in> S}"

text \<open>The expression \<open>a#\<close>, whose own text holds the end-marker character, after \<open>parse_regex\<close>.\<close>

definition a_hash :: "error + regex_to_dfa" where
  "a_hash = parse_regex (init [97] (str ''a#''))"

text \<open>
  What \<open>minimize_dfa\<close> relies on in the automaton it is given: the transitions stay
  inside the states and the alphabet, no key occurs twice, and the final states and the
  initial state are states.
\<close>

definition wf_dfa :: "sym list \<Rightarrow> automaton \<Rightarrow> bool" where
  "wf_dfa sigma d \<longleftrightarrow>
     (\<forall>t \<in> set (transitions d).
        fst (fst t) < states d \<and> snd t < states d \<and> snd (fst t) \<in> set sigma) \<and>
     distinct (map fst (transitions d)) \<and>
     final_states d \<subseteq> {0..<states d} \<and>
     initial d < states d"

text \<open>The set \<open>X\<close> tells \<open>p\<close> from \<open>q\<close> on the symbol: one of them is led into it, the other not.\<close>

definition sep :: "automaton \<Rightarrow> nat set \<Rightarrow> sym \<Rightarrow> nat \<Rightarrow> nat \<Rightarrow> bool" where
  "sep d X symbol p q \<longleftrightarrow> (p \<in> predecessors d X symbol) \<noteq> (q \<in> predecessors d X symbol)"

text \<open>
  The invariant of the refinement loop: the partitions cover the states, none mixes final
  and other states, and whenever a partition tells two states of one partition apart on a
  symbol, so does a set of the worklist, or the set \<open>A\<close> being processed on a symbol still
  \<open>pending\<close>.
\<close>

definition refine_inv ::
  "automaton \<Rightarrow> sym list \<Rightarrow> nat set \<Rightarrow> sym set \<Rightarrow> nat set list \<Rightarrow> nat set list \<Rightarrow> bool" where
  "refine_inv d sigma A pending partitions workset \<longleftrightarrow>
     \<Union> (set partitions) = {0..<states d} \<and>
     (\<forall>B \<in> set partitions. B \<subseteq> final_states d \<or> B \<inter> final_states d = {}) \<and>
     (\<forall>B \<in> set partitions. \<forall>p \<in> B. \<forall>q \<in> B. \<forall>s \<in> set sigma. \<forall>X \<in> set partitions.
        sep d X s p q \<longrightarrow>
          (\<exists>T \<in> set workset. sep d T s p q) \<or> (s \<in> pending \<and> sep d A s p q))"

section \<open>The classic example\<close>

lemma two_orders:
  assumes "distinct sigma" "set sigma = {a, b}" "a \<noteq> b"
  shows "sigma = [a, b] \<or> sigma = [b, a]"
proof -
  have "length sigma = 2" using assms distinct_card[of sigma] by simp
  then obtain x y where s: "sigma = [x, y]"
    by (metis (no_types, opaque_lifting) length_0_conv length_Suc_conv numeral_2_eq_2)
  with assms show ?thesis by auto
qed

lemma abb_orders:
  assumes "alphabet_order (str ''(a|b)*abb'') sigma"
  shows "sigma = [97, 98] \<or> sigma = [98, 97]"
proof -
  have "{c \<in> set (str ''(a|b)*abb''). c \<notin> set metachars} = {97, 98}"
    by (auto simp: str_def metachars_def)
  with assms have "distinct sigma" "set sigma = {97, 98}"
    by (simp_all add: alphabet_order_def)
  then show ?thesis using two_orders[of sigma 97 98] by simp
qed

lemma abb_order_ab: "alphabet_order (str ''(a|b)*abb'') [97, 98]"
  by (auto simp: alphabet_order_def str_def metachars_def)

lemma abb_run_ab:
  "compile_and_test [97, 98] (str ''(a|b)*abb'')
     [str ''abb'', str ''aabb'', str ''babb'', str ''ab'', str ''abbb'', str ''abba''] =
   Some (Inr (Some 4, [Inr True, Inr True, Inr True, Inr False, Inr False, Inr False]))"
  by code_simp

lemma abb_run_ba:
  "compile_and_test [98, 97] (str ''(a|b)*abb'')
     [str ''abb'', str ''aabb'', str ''babb'', str ''ab'', str ''abbb'', str ''abba''] =
   Some (Inr (Some 4, [Inr True, Inr True, Inr True, Inr False, Inr False, Inr False]))"
  by code_simp

text \<open>
  C3, as the code has it: for \<open>(a|b)*abb\<close>, in either iteration order of the alphabet,
  the pipeline ends without an error, the minimized automaton has exactly 4 states, and
  the simulator accepts \<open>abb\<close>, \<open>aabb\<close> and \<open>babb\<close> and rejects \<open>ab\<close>, \<open>abbb\<close> and
  \<open>abba\<close>.
\<close>

theorem abb_example:
  assumes "alphabet_order (str ''(a|b)*abb'') sigma"
  shows "compile_and_test sigma (str ''(a|b)*abb'')
           [str ''abb'', str ''aabb'', str ''babb'', str ''ab'', str ''abbb'', str ''abba''] =
         Some (Inr (Some 4, [Inr True, Inr True, Inr True, Inr False, Inr False, Inr False]))"
  using abb_orders[OF assms] abb_run_ab abb_run_ba by auto

theorem abb_example_witness:
  "alphabet_order (str ''(a|b)*abb'') [97, 98] \<and>
   compile_and_test [97, 98] (str ''(a|b)*abb'')
     [str ''abb'', str ''aabb'', str ''babb'', str ''ab'', str ''abbb'', str ''abba''] =
   Some (Inr (Some 4, [Inr True, Inr True, Inr True, Inr False, Inr False, Inr False]))"
  using abb_example[OF abb_order_ab] abb_order_ab by simp

text \<open>
  C3 as stated has the simulator accept \<open>abbb\<close>; the compiled automaton rejects it.
\<close>

theorem abb_example_counterexample:
  "compile_and_test [97, 98] (str ''(a|b)*abb'') [str ''abbb''] \<noteq>
   Some (Inr (Some 4, [Inr True]))"
  by code_simp

section \<open>The simulator\<close>

lemma run_dfa_walk:
  "run_dfa sigma d q w \<longleftrightarrow>
     set w \<subseteq> set sigma \<and> (\<exists>q'. walk d q w = Some q' \<and> q' \<in> final_states d)"
  by (induction w arbitrary: q) (auto split: option.splits)

lemma walk_append:
  "walk d q (u @ v) = (case walk d q u of None \<Rightarrow> None | Some q' \<Rightarrow> walk d q' v)"
  by (induction u arbitrary: q) (auto split: option.splits)

text \<open>
  C5: the simulator answers on the automaton it chose (the minimized one when asked for
  and present, else the unminimized one). It accepts exactly when every character is in
  the alphabet, the transitions lead from the initial state through the whole string, and
  the state reached is final; so it rejects every string with a character outside the
  alphabet and every string on which a transition is missing.
\<close>

theorem simulate_dfa_spec:
  assumes "simulate_dfa st w minimized = Inr b"
  shows "\<exists>d. (if minimized \<and> minimized_dfa st \<noteq> None then minimized_dfa st else dfa st) = Some d \<and>
           (b \<longleftrightarrow> set w \<subseteq> set (alphabet st) \<and>
                  (\<exists>q. walk d (initial d) w = Some q \<and> q \<in> final_states d)) \<and>
           (\<forall>u c v. w = u @ c # v \<and>
               (c \<notin> set (alphabet st) \<or>
                (\<exists>q. walk d (initial d) u = Some q \<and> map_of (transitions d) (q, c) = None))
               \<longrightarrow> \<not> b)"
proof -
  let ?c = "if minimized \<and> minimized_dfa st \<noteq> None then minimized_dfa st else dfa st"
  from assms obtain d where d: "?c = Some d"
    and b: "b = run_dfa (alphabet st) d (initial d) w"
    by (auto simp: simulate_dfa_def split: if_splits)
  have acc: "b \<longleftrightarrow> set w \<subseteq> set (alphabet st) \<and>
                  (\<exists>q. walk d (initial d) w = Some q \<and> q \<in> final_states d)"
    unfolding b by (rule run_dfa_walk)
  have rej: "\<not> b"
    if "w = u @ c # v"
      and "c \<notin> set (alphabet st) \<or>
           (\<exists>q. walk d (initial d) u = Some q \<and> map_of (transitions d) (q, c) = None)"
    for u c v
    using that acc by (auto simp: walk_append split: option.splits)
  from d acc rej show ?thesis by blast
qed

text \<open>
  A state whose two automata differ, so that the choice shows: the unminimized automaton
  accepts the empty string only, the minimized one accepts the one-letter string.
\<close>

theorem simulate_dfa_spec_witness:
  "simulate_dfa
     ((init [97] [97])\<lparr>dfa := Some \<lparr>states = 1, initial = 0, final_states = {0},
                                    transitions = []\<rparr>,
                       minimized_dfa := Some \<lparr>states = 2, initial = 0, final_states = {1},
                                              transitions = [((0, 97), 1)]\<rparr>\<rparr>)
     [97] True = Inr True \<and>
   (\<exists>q. walk \<lparr>states = 2, initial = 0, final_states = {1}, transitions = [((0, 97), 1)]\<rparr>
          0 [97] = Some q \<and> q \<in> {1})"
proof -
  let ?md = "\<lparr>states = 2, initial = 0, final_states = {1::nat},
              transitions = [((0::nat, 97::sym), 1::nat)]\<rparr>"
  let ?st = "(init [97] [97])\<lparr>dfa := Some \<lparr>states = 1, initial = 0, final_states = {0},
                                            transitions = []\<rparr>,
                               minimized_dfa := Some ?md\<rparr>"
  have h: "simulate_dfa ?st [97] True = Inr True"
    by (simp add: simulate_dfa_def init_def)
  from simulate_dfa_spec[OF h] h show ?thesis by (simp add: init_def)
qed

section \<open>The explicit-concatenation pass\<close>

lemma concat_pairs_Cons:
  "concat (map (\<lambda>i. (c1 # c2 # cs) ! i # g ((c1 # c2 # cs) ! i) ((c1 # c2 # cs) ! (i + 1)))
             [0..<Suc (length cs)]) =
   (c1 # g c1 c2) @
   concat (map (\<lambda>i. (c2 # cs) ! i # g ((c2 # cs) ! i) ((c2 # cs) ! (i + 1))) [0..<length cs])"
  by (simp add: upt_conv_Cons map_Suc_upt[symmetric] o_def del: upt_Suc)

lemma explicit_concat_pairs:
  "concat (map (\<lambda>i. (c # cs) ! i #
                  (if needs_concat ((c # cs) ! i) ((c # cs) ! (i + 1)) then [c_dot] else []))
             [0..<length cs]) @ [last (c # cs)] =
   spec_insert_concat (c # cs)"
proof (induction cs arbitrary: c)
  case Nil
  show ?case by simp
next
  case (Cons c2 cs)
  have "concat (map (\<lambda>i. (c # c2 # cs) ! i #
                  (if needs_concat ((c # c2 # cs) ! i) ((c # c2 # cs) ! (i + 1))
                   then [c_dot] else []))
             [0..<Suc (length cs)]) =
        (c # (if needs_concat c c2 then [c_dot] else [])) @
        concat (map (\<lambda>i. (c2 # cs) ! i #
                  (if needs_concat ((c2 # cs) ! i) ((c2 # cs) ! (i + 1)) then [c_dot] else []))
             [0..<length cs])"
    by (rule concat_pairs_Cons[where g = "\<lambda>a b. if needs_concat a b then [c_dot] else []"])
  with Cons.IH[of c2] show ?case by simp
qed

lemma explicit_concat_eq:
  assumes "regex \<noteq> []"
  shows "explicit_concat regex = Inr (spec_insert_concat regex)"
proof -
  from assms obtain c cs where r: "regex = c # cs" by (cases regex) auto
  have "explicit_concat (c # cs) =
        Inr (concat (map (\<lambda>i. (c # cs) ! i #
                  (if needs_concat ((c # cs) ! i) ((c # cs) ! (i + 1)) then [c_dot] else []))
             [0..<length cs]) @ [last (c # cs)])"
    by (simp add: explicit_concat_def needs_concat_def)
  then show ?thesis unfolding r explicit_concat_pairs .
qed

text \<open>
  C6: on a non-empty expression (the augmented expression always is) the pass returns the
  characters in order, with the concatenation operator between two adjacent characters
  exactly when the first is neither \<open>(\<close> nor \<open>|\<close> and the second is none of \<open>)\<close>, \<open>|\<close>,
  \<open>*\<close>, \<open>+\<close>, \<open>?\<close>.
\<close>

theorem explicit_concat_spec:
  assumes "regex \<noteq> []"
  shows "explicit_concat regex = Inr (spec_insert_concat regex)"
  using assms by (rule explicit_concat_eq)

theorem explicit_concat_spec_witness:
  "str ''(a|b)*abb'' \<noteq> [] \<and>
   explicit_concat (str ''((a|b)*abb)#'') =
     Inr ([40, 40, 97, 124, 98, 41, 42, c_dot, 97, c_dot, 98, c_dot, 98, 41, c_dot, 35])"
proof -
  have h: "str ''((a|b)*abb)#'' \<noteq> []" by (simp add: str_def)
  have "spec_insert_concat (str ''((a|b)*abb)#'') =
        [40, 40, 97, 124, 98, 41, 42, c_dot, 97, c_dot, 98, c_dot, 98, 41, c_dot, 35]"
    by (simp add: str_def needs_concat_def)
  with explicit_concat_spec[OF h] show ?thesis by (simp add: str_def)
qed

section \<open>Errors of the tree builder\<close>

lemma build_token_depth:
  "build_token c (stack, p2s, np) = Inl e \<longleftrightarrow>
     e = ValueError \<and> token_depth c (length stack) = None"
  "build_token c (stack, p2s, np) = Inr (stack', p2s', np') \<Longrightarrow>
     token_depth c (length stack) = Some (length stack')"
  by (auto simp: build_token_def token_depth_def split: list.splits if_splits)


lemma foldE_build_depth:
  "(foldE build_token pf (stack, p2s, np) = Inl e \<longleftrightarrow>
      e = ValueError \<and> stack_depth pf (length stack) = None) \<and>
   (\<forall>stack' p2s' np'. foldE build_token pf (stack, p2s, np) = Inr (stack', p2s', np') \<longrightarrow>
      stack_depth pf (length stack) = Some (length stack'))"
proof (induction pf arbitrary: stack p2s np)
  case Nil
  show ?case by simp
next
  case (Cons c cs)
  show ?case
  proof (cases "build_token c (stack, p2s, np)")
    case (Inl e')
    then have "e' = ValueError" "token_depth c (length stack) = None"
      using build_token_depth(1)[of c stack p2s np e'] by auto
    with Inl show ?thesis by auto
  next
    case (Inr s')
    obtain stack1 p2s1 np1 where s': "s' = (stack1, p2s1, np1)" by (cases s') auto
    from Inr s' have d: "token_depth c (length stack) = Some (length stack1)"
      using build_token_depth(2) by blast
    show ?thesis
      using Cons.IH[of stack1 p2s1 np1] Inr s' d
      by simp
  qed
qed

text \<open>
  C7: the tree builder raises \<open>ValueError\<close>, and nothing else, exactly when the stack
  discipline fails: a unary operator on an empty stack, a binary operator on fewer than
  two nodes, or a final stack of other than one node. Otherwise it returns the one node
  left as the root.
\<close>

theorem build_syntax_tree_errors:
  "(build_syntax_tree postfix st = Inl e \<longleftrightarrow>
      e = ValueError \<and> stack_depth postfix 0 \<noteq> Some 1) \<and>
   (stack_depth postfix 0 = Some 1 \<longrightarrow>
      (\<exists>root p2s np.
         foldE build_token postfix ([], pos_to_symbol st, next_pos st) = Inr ([root], p2s, np) \<and>
         build_syntax_tree postfix st = Inr (root, st\<lparr>pos_to_symbol := p2s, next_pos := np\<rparr>)))"
proof (cases "foldE build_token postfix ([], pos_to_symbol st, next_pos st)")
  case (Inl e')
  with foldE_build_depth[of postfix "[]" "pos_to_symbol st" "next_pos st" e']
  have "e' = ValueError" "stack_depth postfix 0 = None" by auto
  with Inl show ?thesis by (auto simp: build_syntax_tree_def)
next
  case (Inr s')
  obtain stack p2s np where s': "s' = (stack, p2s, np)" by (cases s') auto
  with Inr foldE_build_depth[of postfix "[]" "pos_to_symbol st" "next_pos st"]
  have d: "stack_depth postfix 0 = Some (length stack)" by auto
  show ?thesis
  proof (cases "length stack = 1")
    case True
    then obtain root where "stack = [root]" by (cases stack) auto
    with Inr s' d show ?thesis by (auto simp: build_syntax_tree_def)
  next
    case False
    with Inr s' d show ?thesis by (auto simp: build_syntax_tree_def)
  qed
qed


theorem build_syntax_tree_errors_witness:
  "stack_depth (str ''ab|'') 0 = Some 1 \<and>
   (\<exists>root st'. build_syntax_tree (str ''ab|'') (init [97, 98] (str ''a|b'')) = Inr (root, st') \<and>
       data root = c_bar) \<and>
   stack_depth (str ''a|'') 0 \<noteq> Some 1 \<and>
   build_syntax_tree (str ''a|'') (init [97] (str ''a|'')) = Inl ValueError"
proof -
  have d1: "stack_depth (str ''ab|'') 0 = Some 1" by code_simp
  have d2: "stack_depth (str ''a|'') 0 \<noteq> Some 1" by code_simp
  have r: "data (fst (projr (build_syntax_tree (str ''ab|'') (init [97, 98] (str ''a|b''))))) = c_bar"
    by code_simp
  from build_syntax_tree_errors[of "str ''ab|''" "init [97, 98] (str ''a|b'')"] d1
  obtain root st' where
    b: "build_syntax_tree (str ''ab|'') (init [97, 98] (str ''a|b'')) = Inr (root, st')"
    by blast
  with r have "data root = c_bar" by simp
  with b d1 d2 build_syntax_tree_errors[of "str ''a|''" "init [97] (str ''a|'')" ValueError]
  show ?thesis by auto
qed

section \<open>Simulating before minimizing\<close>

text \<open>
  C9: after \<open>construct_dfa\<close> on an object that has no minimized automaton yet,
  \<open>simulate_dfa\<close> with \<open>minimized=True\<close> raises nothing and runs the unminimized
  automaton, as with \<open>minimized=False\<close>; on any object, the call with \<open>minimized=True\<close>
  raises exactly when neither automaton is there.
\<close>

theorem simulate_before_minimize:
  assumes "construct_dfa st0 = Some (Inr st)" and "minimized_dfa st0 = None"
  shows "(\<exists>d. dfa st = Some d \<and> minimized_dfa st = None \<and>
              simulate_dfa st w True = Inr (run_dfa (alphabet st) d (initial d) w)) \<and>
         simulate_dfa st w True = simulate_dfa st w False \<and>
         (\<forall>st' e. simulate_dfa st' w True = Inl e \<longleftrightarrow>
              e = ValueError \<and> dfa st' = None \<and> minimized_dfa st' = None)"
proof -
  from assms obtain d where "dfa st = Some d" "minimized_dfa st = None"
    by (auto simp: construct_dfa_def split: option.splits sum.splits)
  then show ?thesis by (auto simp: simulate_dfa_def)
qed

theorem simulate_before_minimize_witness:
  "\<exists>st. construct_dfa (projr (parse_regex (init [97] [97]))) = Some (Inr st) \<and>
        minimized_dfa (projr (parse_regex (init [97] [97]))) = None \<and>
        simulate_dfa st [97] True = Inr True \<and>
        simulate_dfa (init [97] [97]) [97] True = Inl ValueError"
proof -
  let ?st0 = "projr (parse_regex (init [97] [97]))"
  have e: "(case construct_dfa ?st0 of
              Some (Inr st) \<Rightarrow> simulate_dfa st [97] False = Inr True | _ \<Rightarrow> False)"
    by code_simp
  have m: "minimized_dfa ?st0 = None" by code_simp
  from e obtain st where c: "construct_dfa ?st0 = Some (Inr st)"
    and s: "simulate_dfa st [97] False = Inr True"
    by (auto split: option.splits sum.splits)
  from simulate_before_minimize[OF c m, of "[97]"] s c m show ?thesis
    by (auto simp: init_def)
qed


section \<open>Attributes of repetition nodes\<close>

lemma set_attributes_fields:
  assumes "set_attributes A d l r nu fp lp pos = Inr n"
  shows "\<exists>nu' fp' lp'. n = Node d l r nu' fp' lp' pos"
  using assms by (auto simp: set_attributes_def split: sum.splits)

lemma set_attributes_repetition:
  assumes "set_attributes A d l r nu fp lp pos = Inr n"
    and "c_star \<notin> A" "c_plus \<notin> A" "c_opt \<notin> A"
  shows "repetition_attrs n"
proof (cases "d \<in> {c_star, c_plus, c_opt}")
  case False
  with set_attributes_fields[OF assms(1)] show ?thesis by (auto simp: repetition_attrs_def)
next
  case True
  with assms show ?thesis
    by (auto simp: set_attributes_def repetition_attrs_def calc_nullable_def
          calc_firstpos_def calc_lastpos_def split: option.splits)
qed

lemma calculate_tree_properties_repetition:
  assumes "calculate_tree_properties A root = Inr root'"
    and "c_star \<notin> A" "c_plus \<notin> A" "c_opt \<notin> A"
  shows "\<forall>n \<in> set (subnodes root'). repetition_attrs n"
  using assms
proof (induction A root arbitrary: root' rule: calculate_tree_properties.induct)
  case (1 A d l r nu fp lp pos)
  note star = "1.prems"(2-4)
  show ?case
  proof (cases l)
    case None
    note l = None
    show ?thesis
    proof (cases r)
      case None
      with l "1.prems"(1) have s: "set_attributes A d None None nu fp lp pos = Inr root'"
        by simp
      from set_attributes_fields[OF s] set_attributes_repetition[OF s star]
      show ?thesis by auto
    next
      case (Some rn)
      with l "1.prems"(1) obtain rn' where c: "calculate_tree_properties A rn = Inr rn'"
        and s: "set_attributes A d None (Some rn') nu fp lp pos = Inr root'"
        by (auto split: sum.splits)
      from "1.IH"(1)[OF l Some c star] set_attributes_fields[OF s]
        set_attributes_repetition[OF s star]
      show ?thesis by auto
    qed
  next
    case (Some ln)
    note l = Some
    from l "1.prems"(1) obtain ln' where cl: "calculate_tree_properties A ln = Inr ln'"
      by (auto split: sum.splits)
    note ihl = "1.IH"(2)[OF l cl star]
    show ?thesis
    proof (cases r)
      case None
      with l cl "1.prems"(1) have s: "set_attributes A d (Some ln') None nu fp lp pos = Inr root'"
        by simp
      from ihl set_attributes_fields[OF s] set_attributes_repetition[OF s star]
      show ?thesis by auto
    next
      case (Some rn)
      with l cl "1.prems"(1) obtain rn' where c: "calculate_tree_properties A rn = Inr rn'"
        and s: "set_attributes A d (Some ln') (Some rn') nu fp lp pos = Inr root'"
        by (auto split: sum.splits)
      from ihl "1.IH"(3)[OF l cl Some c star] set_attributes_fields[OF s]
        set_attributes_repetition[OF s star]
      show ?thesis by auto
    qed
  qed
qed

lemma alphabet_order_metachars:
  assumes "alphabet_order regex sigma" and "c \<in> set metachars"
  shows "c \<notin> set sigma"
  using assms by (auto simp: alphabet_order_def)

lemma parse_regex_tree:
  assumes "parse_regex st = Inr st1"
  shows "\<exists>postfix tree st' root.
           infix_to_postfix (augmented_regex st) = Inr postfix \<and>
           build_syntax_tree postfix st = Inr (tree, st') \<and>
           calculate_tree_properties (set (alphabet st')) tree = Inr root \<and>
           syntax_tree st1 = Some root \<and> alphabet st1 = alphabet st' \<and>
           pos_to_symbol st1 = pos_to_symbol st' \<and> next_pos st1 = next_pos st' \<and>
           dfa st1 = dfa st' \<and> minimized_dfa st1 = minimized_dfa st'"
  using assms by (auto simp: parse_regex_def split: sum.splits prod.splits)

lemma build_syntax_tree_fields:
  assumes "build_syntax_tree postfix st = Inr (tree, st')"
  shows "alphabet st' = alphabet st \<and> dfa st' = dfa st \<and> minimized_dfa st' = minimized_dfa st
         \<and> original_regex st' = original_regex st"
  using assms by (auto simp: build_syntax_tree_def split: sum.splits prod.splits if_splits)

text \<open>
  C2, as the code has it: in the tree that \<open>parse_regex\<close> stores, every node with
  \<open>*\<close>, \<open>+\<close> or \<open>?\<close> has a child \<open>C\<close>, its \<open>firstpos\<close> is \<open>C.firstpos\<close> and its
  \<open>lastpos\<close> is \<open>C.lastpos\<close>; \<open>nullable\<close> is true for \<open>*\<close> and \<open>?\<close> and is
  \<open>C.nullable\<close> for \<open>+\<close>.
\<close>

theorem repetition_attributes:
  assumes "alphabet_order regex sigma"
    and "parse_regex (init sigma regex) = Inr st"
  shows "\<exists>root. syntax_tree st = Some root \<and>
           (\<forall>n \<in> set (subnodes root). data n \<in> {c_star, c_plus, c_opt} \<longrightarrow>
              (\<exists>c. left n = Some c \<and> firstpos n = firstpos c \<and> lastpos n = lastpos c \<and>
                   nullable n = (if data n = c_plus then nullable c else Some True)))"
proof -
  from parse_regex_tree[OF assms(2)] obtain postfix tree st' root where
    b: "build_syntax_tree postfix (init sigma regex) = Inr (tree, st')"
    and c: "calculate_tree_properties (set (alphabet st')) tree = Inr root"
    and r: "syntax_tree st = Some root" by blast
  from build_syntax_tree_fields[OF b] have a: "alphabet st' = sigma" by (simp add: init_def)
  have "c_star \<notin> set sigma" "c_plus \<notin> set sigma" "c_opt \<notin> set sigma"
    using alphabet_order_metachars[OF assms(1)] by (simp_all add: metachars_def)
  from calculate_tree_properties_repetition[OF c[unfolded a] this] r
  show ?thesis by (auto simp: repetition_attrs_def)
qed

lemma subnodes_left: "left root = Some n \<Longrightarrow> n \<in> set (subnodes root)"
  by (cases root; cases n) auto

theorem repetition_attributes_witness:
  "alphabet_order (str ''(ab)*'') [97, 98] \<and>
   (\<exists>st root n c. star_ab = Inr st \<and> syntax_tree st = Some root \<and>
       n \<in> set (subnodes root) \<and> data n = c_star \<and> left n = Some c \<and>
       firstpos n = firstpos c \<and> lastpos n = lastpos c \<and> nullable n = Some True)"
proof -
  have o: "alphabet_order (str ''(ab)*'') [97, 98]"
    by (auto simp: alphabet_order_def str_def metachars_def)
  have e: "(case star_ab of
              Inl e \<Rightarrow> False
            | Inr st \<Rightarrow>
                (case syntax_tree st of
                   None \<Rightarrow> False
                 | Some root \<Rightarrow>
                     (case left root of None \<Rightarrow> False | Some n \<Rightarrow> data n = c_star)))"
    by code_simp
  then obtain st root n where p: "parse_regex (init [97, 98] (str ''(ab)*'')) = Inr st"
    and r: "syntax_tree st = Some root" and n: "left root = Some n" "data n = c_star"
    by (auto simp: star_ab_def split: sum.splits option.splits)
  from repetition_attributes[OF o p] r subnodes_left[OF n(1)] n(2) p o
  show ?thesis by (fastforce simp: star_ab_def)
qed

text \<open>
  C2 as stated has \<open>lastpos\<close> of the repetition node equal to \<open>C.firstpos\<close>; in the tree
  of \<open>(ab)*\<close> the star node has last position 2 and its child has first position 1.
\<close>

theorem repetition_lastpos_counterexample:
  "data (the (left (the (syntax_tree (projr star_ab))))) = c_star \<and>
   lastpos (the (left (the (syntax_tree (projr star_ab))))) \<noteq>
   firstpos (the (left (the (left (the (syntax_tree (projr star_ab)))))))"
  by code_simp

section \<open>Position assignment\<close>

lemma build_token_leaves:
  assumes "build_token c (stack, p2s, np) = Inr (stack', p2s', np')"
  shows "concat (map leaf_info (rev stack')) =
           concat (map leaf_info (rev stack)) @
             (if is_operator c then [] else [(c, if c = c_eps then None else Some np)]) \<and>
         np' = (if is_operator c \<or> c = c_eps then np else np + 1) \<and>
         p2s' = (if is_operator c \<or> c = c_eps then p2s else AList.update np c p2s)"
  using assms
  by (auto simp: build_token_def is_operator_def split: list.splits if_splits)

lemma update_fresh: "k \<notin> fst ` set al \<Longrightarrow> AList.update k v al = al @ [(k, v)]"
  by (induction al) auto

lemma numbering_ok_operator: "numbering_ok ls p2s np \<Longrightarrow> numbering_ok (ls @ []) p2s np"
  by simp

lemma numbering_ok_eps:
  "numbering_ok ls p2s np \<Longrightarrow> numbering_ok (ls @ [(c_eps, None)]) p2s np"
  by (auto simp: numbering_ok_def numbered_def)

lemma numbering_ok_leaf:
  assumes "numbering_ok ls p2s np" and "c \<noteq> c_eps"
  shows "numbering_ok (ls @ [(c, Some np)]) (AList.update np c p2s) (np + 1)"
proof -
  from assms(1) have np: "1 \<le> np"
    and m: "map snd (numbered ls) = map Some [1..<np]"
    and e: "\<forall>l \<in> set ls. fst l = c_eps \<longrightarrow> snd l = None"
    and p: "p2s = zip [1..<np] (map fst (numbered ls))"
    by (auto simp: numbering_ok_def)
  from m have len: "length (numbered ls) = np - 1"
    by (metis length_map length_upt)
  have n': "numbered (ls @ [(c, Some np)]) = numbered ls @ [(c, Some np)]"
    using assms(2) by (simp add: numbered_def)
  have upt: "[1..<np + 1] = [1..<np] @ [np]" using np by simp
  have "np \<notin> fst ` set p2s" unfolding p by (auto dest: set_zip_leftD)
  then have u: "AList.update np c p2s = p2s @ [(np, c)]" by (rule update_fresh)
  have z: "zip [1..<np + 1] (map fst (numbered (ls @ [(c, Some np)]))) = p2s @ [(np, c)]"
    unfolding n' upt p using len by simp
  show ?thesis
    unfolding numbering_ok_def
    using np m e assms(2) u z n' upt by (auto simp del: upt_Suc)
qed

lemma foldE_build_numbering:
  assumes "foldE build_token pf (stack, p2s, np) = Inr (stack', p2s', np')"
    and "numbering_ok (concat (map leaf_info (rev stack))) p2s np"
  shows "numbering_ok (concat (map leaf_info (rev stack'))) p2s' np' \<and>
         map fst (concat (map leaf_info (rev stack'))) =
           map fst (concat (map leaf_info (rev stack))) @ filter (\<lambda>c. \<not> is_operator c) pf"
  using assms
proof (induction pf arbitrary: stack p2s np)
  case Nil
  then show ?case by simp
next
  case (Cons c cs)
  from Cons.prems(1) obtain stack1 p2s1 np1 where
    t: "build_token c (stack, p2s, np) = Inr (stack1, p2s1, np1)"
    and f: "foldE build_token cs (stack1, p2s1, np1) = Inr (stack', p2s', np')"
    by (auto split: sum.splits)
  note l = build_token_leaves[OF t]
  have ok1: "numbering_ok (concat (map leaf_info (rev stack1))) p2s1 np1"
  proof (cases "is_operator c")
    case True
    with l Cons.prems(2) show ?thesis by simp
  next
    case False
    show ?thesis
    proof (cases "c = c_eps")
      case True
      with False l numbering_ok_eps[OF Cons.prems(2)] show ?thesis by simp
    next
      case ne: False
      with False l numbering_ok_leaf[OF Cons.prems(2) ne] show ?thesis by simp
    qed
  qed
  from Cons.IH[OF f ok1] l show ?case by auto
qed

lemma set_attributes_leaf_info:
  assumes "set_attributes A d l r nu fp lp pos = Inr n"
  shows "leaf_info n = leaf_info (Node d l r nu fp lp pos)"
  using set_attributes_fields[OF assms] by auto

lemma calculate_tree_properties_leaf_info:
  "calculate_tree_properties A root = Inr root' \<Longrightarrow> leaf_info root' = leaf_info root"
proof (induction A root arbitrary: root' rule: calculate_tree_properties.induct)
  case (1 A d l r nu fp lp pos)
  show ?case
  proof (cases l)
    case None
    note l = None
    show ?thesis
    proof (cases r)
      case None
      with l "1.prems" set_attributes_leaf_info show ?thesis by simp
    next
      case (Some rn)
      with l "1.prems" obtain rn' where c: "calculate_tree_properties A rn = Inr rn'"
        and s: "set_attributes A d None (Some rn') nu fp lp pos = Inr root'"
        by (auto split: sum.splits)
      from "1.IH"(1)[OF l Some c] set_attributes_leaf_info[OF s] l Some
      show ?thesis by simp
    qed
  next
    case (Some ln)
    note l = Some
    from l "1.prems" obtain ln' where cl: "calculate_tree_properties A ln = Inr ln'"
      by (auto split: sum.splits)
    note ihl = "1.IH"(2)[OF l cl]
    show ?thesis
    proof (cases r)
      case None
      with l cl "1.prems" have s: "set_attributes A d (Some ln') None nu fp lp pos = Inr root'"
        by simp
      from ihl set_attributes_leaf_info[OF s] l None show ?thesis by simp
    next
      case (Some rn)
      with l cl "1.prems" obtain rn' where c: "calculate_tree_properties A rn = Inr rn'"
        and s: "set_attributes A d (Some ln') (Some rn') nu fp lp pos = Inr root'"
        by (auto split: sum.splits)
      from ihl "1.IH"(3)[OF l cl Some c] set_attributes_leaf_info[OF s] l Some
      show ?thesis by simp
    qed
  qed
qed

lemma build_syntax_tree_numbering:
  assumes "build_syntax_tree postfix st = Inr (tree, st')"
    and "pos_to_symbol st = []" and "next_pos st = 1"
  shows "numbering_ok (leaf_info tree) (pos_to_symbol st') (next_pos st') \<and>
         map fst (leaf_info tree) = filter (\<lambda>c. \<not> is_operator c) postfix"
proof -
  from assms(1) obtain stack p2s np where
    f: "foldE build_token postfix ([], pos_to_symbol st, next_pos st) = Inr (stack, p2s, np)"
    and len: "length stack = 1" and t: "tree = last stack"
    and st': "st' = st\<lparr>pos_to_symbol := p2s, next_pos := np\<rparr>"
    by (auto simp: build_syntax_tree_def split: sum.splits if_splits)
  from len t have s: "stack = [tree]" by (cases stack) auto
  have "numbering_ok (concat (map leaf_info (rev []))) [] 1"
    by (simp add: numbering_ok_def numbered_def)
  from foldE_build_numbering[OF f[unfolded assms(2,3)] this] s st'
  show ?thesis by simp
qed

lemma construct_dfa_pos_to_symbol:
  "construct_dfa st = Some (Inr st') \<Longrightarrow> pos_to_symbol st' = pos_to_symbol st"
  by (auto simp: construct_dfa_def split: option.splits sum.splits)

lemma minimize_dfa_pos_to_symbol:
  "minimize_dfa st = Some (Inr st') \<Longrightarrow> pos_to_symbol st' = pos_to_symbol st"
  by (auto simp: minimize_dfa_def split: option.splits sum.splits)

text \<open>
  C8: when \<open>parse_regex\<close> succeeds, the leaves of the tree are the non-operator tokens of
  the postfix string in their order; the leaves other than the empty-string marker carry
  the positions 1, 2, ..., \<open>next_pos - 1\<close> in that order and the marker leaves carry none;
  the table maps each position to the character of its leaf; and neither \<open>construct_dfa\<close>
  nor \<open>minimize_dfa\<close> changes the table.
\<close>

theorem position_assignment:
  assumes "parse_regex (init sigma regex) = Inr st1"
  shows "\<exists>root postfix.
           syntax_tree st1 = Some root \<and>
           infix_to_postfix (augmented_regex (init sigma regex)) = Inr postfix \<and>
           map fst (leaf_info root) = filter (\<lambda>c. \<not> is_operator c) postfix \<and>
           map snd (numbered (leaf_info root)) = map Some [1..<next_pos st1] \<and>
           (\<forall>l \<in> set (leaf_info root). fst l = c_eps \<longrightarrow> snd l = None) \<and>
           pos_to_symbol st1 = zip [1..<next_pos st1] (map fst (numbered (leaf_info root))) \<and>
           (\<forall>st2. construct_dfa st1 = Some (Inr st2) \<longrightarrow>
              pos_to_symbol st2 = pos_to_symbol st1 \<and>
              (\<forall>st3. minimize_dfa st2 = Some (Inr st3) \<longrightarrow>
                 pos_to_symbol st3 = pos_to_symbol st1))"
proof -
  from parse_regex_tree[OF assms] obtain postfix tree st' root where
    i: "infix_to_postfix (augmented_regex (init sigma regex)) = Inr postfix"
    and b: "build_syntax_tree postfix (init sigma regex) = Inr (tree, st')"
    and c: "calculate_tree_properties (set (alphabet st')) tree = Inr root"
    and r: "syntax_tree st1 = Some root"
    and p: "pos_to_symbol st1 = pos_to_symbol st'" "next_pos st1 = next_pos st'"
    by blast
  have "pos_to_symbol (init sigma regex) = []" "next_pos (init sigma regex) = 1"
    by (simp_all add: init_def)
  from build_syntax_tree_numbering[OF b this] calculate_tree_properties_leaf_info[OF c] p
  have ok: "numbering_ok (leaf_info root) (pos_to_symbol st1) (next_pos st1)"
    and o: "map fst (leaf_info root) = filter (\<lambda>c. \<not> is_operator c) postfix"
    by simp_all
  have later: "pos_to_symbol st2 = pos_to_symbol st1 \<and>
         (\<forall>st3. minimize_dfa st2 = Some (Inr st3) \<longrightarrow> pos_to_symbol st3 = pos_to_symbol st1)"
    if "construct_dfa st1 = Some (Inr st2)" for st2
    using construct_dfa_pos_to_symbol[OF that] minimize_dfa_pos_to_symbol by auto
  from r i o ok later show ?thesis unfolding numbering_ok_def by blast
qed

theorem position_assignment_witness:
  "\<exists>st1 st2 st3 root.
     parse_regex (init [97, 98] (str ''a|b'')) = Inr st1 \<and>
     construct_dfa st1 = Some (Inr st2) \<and> minimize_dfa st2 = Some (Inr st3) \<and>
     syntax_tree st1 = Some root \<and>
     leaf_info root = [(97, Some 1), (98, Some 2), (c_hash, Some 3)] \<and>
     pos_to_symbol st3 = [(1, 97), (2, 98), (3, c_hash)]"
proof -
  have e: "(case parse_regex (init [97, 98] (str ''a|b'')) of
              Inl e \<Rightarrow> False
            | Inr st1 \<Rightarrow>
                (case construct_dfa st1 of
                   Some (Inr st2) \<Rightarrow>
                     (case minimize_dfa st2 of Some (Inr st3) \<Rightarrow> True | _ \<Rightarrow> False)
                 | _ \<Rightarrow> False) \<and>
                map_option leaf_info (syntax_tree st1) =
                  Some [(97, Some 1), (98, Some 2), (c_hash, Some 3)] \<and> next_pos st1 = 4)"
    by code_simp
  then obtain st1 where p: "parse_regex (init [97, 98] (str ''a|b'')) = Inr st1"
    and e1: "(case construct_dfa st1 of
                Some (Inr st2) \<Rightarrow>
                  (case minimize_dfa st2 of Some (Inr st3) \<Rightarrow> True | _ \<Rightarrow> False)
              | _ \<Rightarrow> False)"
    and l1: "map_option leaf_info (syntax_tree st1) =
               Some [(97, Some 1), (98, Some 2), (c_hash, Some 3)]"
    and n: "next_pos st1 = 4"
    by (cases "parse_regex (init [97, 98] (str ''a|b''))") auto
  from e1 obtain st2 where c: "construct_dfa st1 = Some (Inr st2)"
    and e2: "(case minimize_dfa st2 of Some (Inr st3) \<Rightarrow> True | _ \<Rightarrow> False)"
    by (cases "construct_dfa st1"; simp split: sum.splits)
  from e2 obtain st3 where m: "minimize_dfa st2 = Some (Inr st3)"
    by (cases "minimize_dfa st2"; simp split: sum.splits)
  from l1 obtain root where r: "syntax_tree st1 = Some root"
    and l: "leaf_info root = [(97, Some 1), (98, Some 2), (c_hash, Some 3)]"
    by auto
  have u: "[1..<4] = [1, 2, 3::nat]" by (simp add: upt_rec)
  from position_assignment[OF p] c m r l n
  have "pos_to_symbol st3 = zip [1..<4] (map fst (numbered (leaf_info root)))" by auto
  with l have "pos_to_symbol st3 = [(1, 97), (2, 98), (3, c_hash)]"
    unfolding u by (simp add: numbered_def)
  with p c m r l show ?thesis by blast
qed

section \<open>The worklist loop of construct_dfa\<close>

lemma foldE_invariant:
  assumes "foldE f xs s = Inr s'"
    and "I [] s"
    and "\<And>ys x s1 s2. I ys s1 \<Longrightarrow> f x s1 = Inr s2 \<Longrightarrow> I (ys @ [x]) s2"
  shows "I xs s'"
proof -
  have "foldE f xs s1 = Inr s' \<Longrightarrow> I ys s1 \<Longrightarrow> I (ys @ xs) s'" for ys s1
  proof (induction xs arbitrary: ys s1)
    case Nil
    then show ?case by simp
  next
    case (Cons x xs)
    from Cons.prems(1) obtain s2 where f: "f x s1 = Inr s2" and r: "foldE f xs s2 = Inr s'"
      by (auto split: sum.splits)
    from Cons.IH[OF r assms(3)[OF Cons.prems(2) f]] show ?case by simp
  qed
  from this[OF assms(1), of "[]"] assms(2) show ?thesis by simp
qed

lemma construct_loop_invariant:
  assumes run: "construct_loop st end_pos s = Some (Inr (sts, trns, finals))"
    and init: "I s"
    and step: "\<And>sts unmarked trns finals cur rest finals' sts' unmarked' trns'.
           I (sts, cur # rest, trns, finals) \<Longrightarrow>
           mark_final end_pos cur sts finals = Inr finals' \<Longrightarrow>
           foldE (expand_symbol st cur) (alphabet st) (sts, rest, trns) =
             Inr (sts', unmarked', trns') \<Longrightarrow>
           I (sts', unmarked', trns', finals')"
  shows "I (sts, [], trns, finals)"
proof -
  let ?P = "\<lambda>st0 e0 s r. st0 = st \<longrightarrow> e0 = end_pos \<longrightarrow> I s \<longrightarrow>
              (\<forall>sts trns finals. r = Inr (sts, trns, finals) \<longrightarrow> I (sts, [], trns, finals))"
  have "?P st0 e0 s0 r" if "construct_loop st0 e0 s0 = Some r" for st0 e0 s0 r
    using that
  proof (induction st0 e0 s0 r rule: construct_loop.raw_induct[rotated 1, consumes 1])
    case (1 loop st0 e0 s0 r)
    note IH = 1(1) and body = 1(2)
    show "?P st0 e0 s0 r"
    proof (intro impI allI)
      fix sts1 trns1 finals1
      assume eq: "st0 = st" "e0 = end_pos" and I0: "I s0" and r: "r = Inr (sts1, trns1, finals1)"
      obtain sts0 um0 trns0 finals0 where s0: "s0 = (sts0, um0, trns0, finals0)"
        by (cases s0) auto
      show "I (sts1, [], trns1, finals1)"
      proof (cases um0)
        case Nil
        with body s0 r I0 show ?thesis by simp
      next
        case (Cons cur rest)
        from body s0 Cons r obtain finals' where
          m: "mark_final e0 cur sts0 finals0 = Inr finals'"
          by (auto split: sum.splits)
        from body s0 Cons r m obtain sts' um' trns' where
          f: "foldE (expand_symbol st0 cur) (alphabet st0) (sts0, rest, trns0) =
                Inr (sts', um', trns')"
          and l: "loop st0 e0 (sts', um', trns', finals') = Some r"
          by (auto split: sum.splits)
        from step[OF I0[unfolded s0 Cons] m[unfolded eq] f[unfolded eq]]
        have "I (sts', um', trns', finals')" .
        with IH[OF l] eq r show ?thesis by blast
      qed
    qed
  qed
  from this[OF run] init show ?thesis by blast
qed


lemma dense_lookup:
  assumes "distinct (map fst sts)" and "map snd sts = [0..<length sts]"
  shows "map_of sts S = Some k \<longleftrightarrow> k < length sts \<and> sts ! k = (S, k)"
proof
  assume "map_of sts S = Some k"
  then have "(S, k) \<in> set sts" by (rule map_of_SomeD)
  then obtain m where m: "m < length sts" "sts ! m = (S, k)" by (auto simp: in_set_conv_nth)
  from m(1) have "snd (sts ! m) = [0..<length sts] ! m"
    unfolding assms(2)[symmetric] by simp
  with m show "k < length sts \<and> sts ! k = (S, k)" by simp
next
  assume "k < length sts \<and> sts ! k = (S, k)"
  then have "(S, k) \<in> set sts" by (metis nth_mem)
  with assms(1) show "map_of sts S = Some k" by simp
qed

lemma dense_inj:
  assumes "distinct (map fst sts)" and "map snd sts = [0..<length sts]"
    and "map_of sts S = Some k" and "map_of sts S' = Some k"
  shows "S = S'"
  using assms(3,4) unfolding dense_lookup[OF assms(1,2)] by auto

lemma map_of_append_Some: "map_of xs k = Some v \<Longrightarrow> map_of (xs @ ys) k = Some v"
  by (simp add: map_of_append)

lemma map_of_append_fresh:
  "k \<notin> fst ` set xs \<Longrightarrow> map_of (xs @ [(k, v)]) k' = (if k' = k then Some v else map_of xs k')"
  by (induction xs) auto

lemma map_of_in_keys: "map_of xs k = Some v \<Longrightarrow> k \<in> fst ` set xs"
  by (metis map_of_eq_None_iff option.distinct(1))

lemma keys_update: "fst ` set (AList.update k v al) = insert k (fst ` set al)"
  by (induction al) auto

lemma expanded_append:
  assumes "expanded st sts trns S syms" and "N \<notin> fst ` set sts"
  shows "expanded st (sts @ [(N, n)]) trns S syms"
proof -
  from assms(1) obtain i where i: "map_of sts S = Some i"
    and t: "\<And>s. if s \<in> syms \<and> move st S s \<noteq> {}
             then map_of trns (i, s) = map_of sts (move st S s) \<and>
                  map_of sts (move st S s) \<noteq> None
             else map_of trns (i, s) = None"
    unfolding expanded_def by blast
  have i': "map_of (sts @ [(N, n)]) S = Some i" using i by (rule map_of_append_Some)
  have "if s \<in> syms \<and> move st S s \<noteq> {}
        then map_of trns (i, s) = map_of (sts @ [(N, n)]) (move st S s) \<and>
             map_of (sts @ [(N, n)]) (move st S s) \<noteq> None
        else map_of trns (i, s) = None" for s
  proof (cases "s \<in> syms \<and> move st S s \<noteq> {}")
    case True
    with t[of s] obtain j where j: "map_of sts (move st S s) = Some j"
      and tj: "map_of trns (i, s) = Some j" by auto
    have "map_of (sts @ [(N, n)]) (move st S s) = Some j"
      using j by (rule map_of_append_Some)
    with tj True show ?thesis by (simp del: map_of_append)
  next
    case False
    with t[of s] show ?thesis by auto
  qed
  with i' show ?thesis unfolding expanded_def by blast
qed

lemma expanded_new:
  assumes "\<forall>k \<in> fst ` set trns. fst k < length sts" and "N \<notin> fst ` set sts"
  shows "expanded st (sts @ [(N, length sts)]) trns N {}"
proof -
  have "map_of trns (length sts, s) = None" for s
  proof (cases "map_of trns (length sts, s)")
    case (Some j)
    from map_of_in_keys[OF this] assms(1) show ?thesis by auto
  qed simp
  moreover have "map_of (sts @ [(N, length sts)]) N = Some (length sts)"
    using map_of_append_fresh[OF assms(2), of "length sts" N] by (simp del: map_of_append)
  ultimately show ?thesis unfolding expanded_def by (auto simp del: map_of_append)
qed

lemma expanded_update_other:
  assumes "expanded st sts trns S syms" and "map_of sts S = Some k" and "k \<noteq> i"
  shows "expanded st sts (AList.update (i, s) j trns) S syms"
  using assms unfolding expanded_def by (auto simp: update_conv')

lemma expanded_update_cur:
  assumes "expanded st sts trns cur done" and "map_of sts cur = Some i"
    and "move st cur s \<noteq> {}" and "map_of sts (move st cur s) = Some j"
  shows "expanded st sts (AList.update (i, s) j trns) cur (insert s done)"
proof -
  from assms(1,2) have
    t: "\<And>s. if s \<in> done \<and> move st cur s \<noteq> {}
             then map_of trns (i, s) = map_of sts (move st cur s) \<and>
                  map_of sts (move st cur s) \<noteq> None
             else map_of trns (i, s) = None"
    unfolding expanded_def by auto
  have "if s' \<in> insert s done \<and> move st cur s' \<noteq> {}
        then map_of (AList.update (i, s) j trns) (i, s') = map_of sts (move st cur s') \<and>
             map_of sts (move st cur s') \<noteq> None
        else map_of (AList.update (i, s) j trns) (i, s') = None" for s'
  proof (cases "s' = s")
    case True
    with assms(3,4) show ?thesis by (simp add: update_conv')
  next
    case False
    with t[of s'] show ?thesis by (simp add: update_conv')
  qed
  with assms(2) show ?thesis unfolding expanded_def by blast
qed

lemma expanded_empty_move:
  assumes "expanded st sts trns cur done" and "move st cur s = {}"
  shows "expanded st sts trns cur (insert s done)"
proof -
  from assms(1) obtain i where i: "map_of sts cur = Some i"
    and t: "\<And>s. if s \<in> done \<and> move st cur s \<noteq> {}
             then map_of trns (i, s) = map_of sts (move st cur s) \<and>
                  map_of sts (move st cur s) \<noteq> None
             else map_of trns (i, s) = None"
    unfolding expanded_def by blast
  have "if s' \<in> insert s done \<and> move st cur s' \<noteq> {}
        then map_of trns (i, s') = map_of sts (move st cur s') \<and>
             map_of sts (move st cur s') \<noteq> None
        else map_of trns (i, s') = None" for s'
    using t[of s'] assms(2) by (cases "s' = s") auto
  with i show ?thesis unfolding expanded_def by blast
qed


lemma table_invD:
  assumes "table_inv st e start cur done sts um trns finals"
  shows "distinct (map fst sts)" and "map snd sts = [0..<length sts]"
    and "map_of sts start = Some 0"
    and "distinct um" and "set um \<subseteq> fst ` set sts"
    and "\<And>S. S \<in> fst ` set sts \<Longrightarrow> expanded st sts trns S
          (if S \<in> set um then {} else if S = cur then done else set (alphabet st))"
    and "\<forall>k \<in> fst ` set trns. fst k < length sts"
    and "distinct (map fst trns)"
    and "finals = {i. \<exists>S. map_of sts S = Some i \<and> S \<notin> set um \<and> e \<in> S}"
  using assms unfolding table_inv_def by blast+

lemma table_invI:
  assumes "distinct (map fst sts)" and "map snd sts = [0..<length sts]"
    and "map_of sts start = Some 0"
    and "distinct um" and "set um \<subseteq> fst ` set sts"
    and "\<And>S. S \<in> fst ` set sts \<Longrightarrow> expanded st sts trns S
          (if S \<in> set um then {} else if S = cur then done else set (alphabet st))"
    and "\<forall>k \<in> fst ` set trns. fst k < length sts"
    and "distinct (map fst trns)"
    and "finals = {i. \<exists>S. map_of sts S = Some i \<and> S \<notin> set um \<and> e \<in> S}"
  shows "table_inv st e start cur done sts um trns finals"
  using assms unfolding table_inv_def by blast

lemma table_inv_append:
  assumes inv: "table_inv st e start cur done sts um trns finals"
    and N: "N \<notin> fst ` set sts"
  shows "table_inv st e start cur done (sts @ [(N, length sts)]) (um @ [N]) trns finals"
proof -
  let ?sts' = "sts @ [(N, length sts)]"
  note d = table_invD(1)[OF inv] and n = table_invD(2)[OF inv]
    and s0 = table_invD(3)[OF inv] and du = table_invD(4)[OF inv]
    and su = table_invD(5)[OF inv] and ex = table_invD(6)[OF inv]
    and k = table_invD(7)[OF inv] and dt = table_invD(8)[OF inv]
    and f = table_invD(9)[OF inv]
  have 1: "distinct (map fst ?sts')" using d N by auto
  have 2: "map snd ?sts' = [0..<length ?sts']" using n by simp
  have 3: "map_of ?sts' start = Some 0" using s0 by (rule map_of_append_Some)
  have 4: "distinct (um @ [N])" using du su N by auto
  have 5: "set (um @ [N]) \<subseteq> fst ` set ?sts'" using su by auto
  have 6: "expanded st ?sts' trns S
          (if S \<in> set (um @ [N]) then {} else if S = cur then done else set (alphabet st))"
    if "S \<in> fst ` set ?sts'" for S
  proof (cases "S = N")
    case True
    with expanded_new[OF k N] show ?thesis by simp
  next
    case False
    with that have "S \<in> fst ` set sts" by auto
    from expanded_append[OF ex[OF this] N] False show ?thesis by simp
  qed
  have 7: "\<forall>k \<in> fst ` set trns. fst k < length ?sts'" using k by auto
  have l: "map_of ?sts' S = (if S = N then Some (length sts) else map_of sts S)" for S
    using map_of_append_fresh[OF N] by blast
  have "(map_of ?sts' S = Some i \<and> S \<notin> set (um @ [N]) \<and> e \<in> S) \<longleftrightarrow>
        (map_of sts S = Some i \<and> S \<notin> set um \<and> e \<in> S)" for S i
  proof (cases "S = N")
    case True
    with N have "map_of sts S = None" by (simp add: map_of_eq_None_iff)
    with True show ?thesis by simp
  next
    case False
    with l[of S] show ?thesis by (simp del: map_of_append)
  qed
  then have 9: "finals = {i. \<exists>S. map_of ?sts' S = Some i \<and> S \<notin> set (um @ [N]) \<and> e \<in> S}"
    unfolding f by simp
  from 1 2 3 4 5 6 7 dt 9 show ?thesis by (rule table_invI)
qed

lemma table_inv_update:
  assumes inv: "table_inv st e start cur done sts um trns finals"
    and i: "map_of sts cur = Some i" and cu: "cur \<notin> set um"
    and m: "move st cur s \<noteq> {}" and j: "map_of sts (move st cur s) = Some j"
  shows "table_inv st e start cur (insert s done) sts um (AList.update (i, s) j trns) finals"
proof -
  let ?trns' = "AList.update (i, s) j trns"
  note d = table_invD(1)[OF inv] and n = table_invD(2)[OF inv]
    and s0 = table_invD(3)[OF inv] and du = table_invD(4)[OF inv]
    and su = table_invD(5)[OF inv] and ex = table_invD(6)[OF inv]
    and k = table_invD(7)[OF inv] and dt = table_invD(8)[OF inv]
    and f = table_invD(9)[OF inv]
  have 6: "expanded st sts ?trns' S
          (if S \<in> set um then {} else if S = cur then insert s done else set (alphabet st))"
    if S: "S \<in> fst ` set sts" for S
  proof (cases "S = cur")
    case True
    with ex[OF S] cu expanded_update_cur[OF _ i m j] show ?thesis by simp
  next
    case False
    from ex[OF S] obtain k' where k': "map_of sts S = Some k'" unfolding expanded_def by blast
    with i False dense_inj[OF d n] have "k' \<noteq> i" by blast
    from expanded_update_other[OF ex[OF S] k' this, of s j] False show ?thesis
      by (simp split: if_splits)
  qed
  from i have "i < length sts" unfolding dense_lookup[OF d n] by simp
  then have 7: "\<forall>k \<in> fst ` set ?trns'. fst k < length sts"
    using k unfolding keys_update by simp
  have 8: "distinct (map fst ?trns')" using dt by (rule distinct_update)
  from d n s0 du su 6 7 8 f show ?thesis by (rule table_invI)
qed

lemma table_inv_empty_move:
  assumes inv: "table_inv st e start cur done sts um trns finals"
    and c: "cur \<in> fst ` set sts" and cu: "cur \<notin> set um" and m: "move st cur s = {}"
  shows "table_inv st e start cur (insert s done) sts um trns finals"
proof -
  note ex = table_invD(6)[OF inv]
  have 6: "expanded st sts trns S
          (if S \<in> set um then {} else if S = cur then insert s done else set (alphabet st))"
    if S: "S \<in> fst ` set sts" for S
  proof (cases "S = cur")
    case True
    with ex[OF S] cu have "expanded st sts trns cur done" by simp
    from expanded_empty_move[OF this m] True cu show ?thesis by simp
  next
    case False
    with ex[OF S] show ?thesis by (simp split: if_splits)
  qed
  from table_invD(1-5)[OF inv] 6 table_invD(7-9)[OF inv] show ?thesis by (rule table_invI)
qed

lemma expand_symbol_inv:
  assumes inv: "table_inv st e start cur done sts um trns finals"
    and c: "cur \<in> fst ` set sts" and cu: "cur \<notin> set um"
    and ex: "expand_symbol st cur s (sts, um, trns) = Inr (sts', um', trns')"
  shows "table_inv st e start cur (insert s done) sts' um' trns' finals \<and>
         cur \<in> fst ` set sts' \<and> cur \<notin> set um'"
proof (cases "move st cur s = {}")
  case True
  with ex have "sts' = sts" "um' = um" "trns' = trns" by (simp_all add: expand_symbol_def)
  with table_inv_empty_move[OF inv c cu True] c cu show ?thesis by simp
next
  case False
  let ?N = "move st cur s"
  note d = table_invD(1)[OF inv]
  from c d obtain i where i: "map_of sts cur = Some i"
    by (metis map_of_eq_None_iff not_Some_eq)
  show ?thesis
  proof (cases "map_of sts ?N")
    case (Some j)
    with ex False i have "sts' = sts" "um' = um" "trns' = AList.update (i, s) j trns"
      by (simp_all add: expand_symbol_def)
    with table_inv_update[OF inv i cu False Some] c cu show ?thesis by simp
  next
    case None
    then have N: "?N \<notin> fst ` set sts" by (simp add: map_of_eq_None_iff)
    let ?sts1 = "sts @ [(?N, length sts)]"
    have u: "AList.update ?N (length sts) sts = ?sts1" using N by (rule update_fresh)
    have i1: "map_of ?sts1 cur = Some i" using i by (rule map_of_append_Some)
    have j1: "map_of ?sts1 ?N = Some (length sts)"
      using map_of_append_fresh[OF N, of "length sts" ?N] by simp
    from ex False None i1 j1
    have r: "sts' = ?sts1" "um' = um @ [?N]" "trns' = AList.update (i, s) (length sts) trns"
      by (simp_all add: expand_symbol_def u Let_def del: map_of_append)
    from c N have cN: "cur \<noteq> ?N" by auto
    with cu have cu1: "cur \<notin> set (um @ [?N])" by simp
    from table_inv_update[OF table_inv_append[OF inv N] i1 cu1 False j1] r c cu1
    show ?thesis by simp
  qed
qed

lemma expand_alphabet_inv:
  assumes inv: "table_inv st e start cur {} sts um trns finals"
    and c: "cur \<in> fst ` set sts" and cu: "cur \<notin> set um"
    and f: "foldE (expand_symbol st cur) syms (sts, um, trns) = Inr (sts', um', trns')"
  shows "table_inv st e start cur (set syms) sts' um' trns' finals"
proof -
  let ?I = "\<lambda>ys s. case s of (sts, um, trns) \<Rightarrow>
              table_inv st e start cur (set ys) sts um trns finals \<and>
              cur \<in> fst ` set sts \<and> cur \<notin> set um"
  have "?I syms (sts', um', trns')"
  proof (rule foldE_invariant[where I = ?I, OF f])
    show "?I [] (sts, um, trns)" using inv c cu by simp
  next
    fix ys x s1 s2
    assume a: "?I ys s1" and b: "expand_symbol st cur x s1 = Inr s2"
    obtain a1 b1 c1 where s1: "s1 = (a1, b1, c1)" by (cases s1) auto
    obtain a2 b2 c2 where s2: "s2 = (a2, b2, c2)" by (cases s2) auto
    from a s1 have "table_inv st e start cur (set ys) a1 b1 c1 finals"
      "cur \<in> fst ` set a1" "cur \<notin> set b1" by auto
    from expand_symbol_inv[OF this b[unfolded s1 s2]] s2
    show "?I (ys @ [x]) s2" by simp
  qed
  then show ?thesis by simp
qed

lemma table_inv_cur:
  assumes inv: "table_inv st e start c0 (set (alphabet st)) sts um trns finals"
  shows "table_inv st e start c1 (set (alphabet st)) sts um trns finals"
proof -
  have 6: "expanded st sts trns S
       (if S \<in> set um then {} else if S = c1 then set (alphabet st) else set (alphabet st))"
    if S: "S \<in> fst ` set sts" for S
    using table_invD(6)[OF inv S] by (auto split: if_splits)
  from table_invD(1-5)[OF inv] 6 table_invD(7-9)[OF inv] show ?thesis by (rule table_invI)
qed

lemma table_inv_pop:
  assumes inv: "table_inv st e start c0 (set (alphabet st)) sts (cur # rest) trns finals"
    and m: "mark_final e cur sts finals = Inr finals'"
  shows "table_inv st e start cur {} sts rest trns finals' \<and>
         cur \<in> fst ` set sts \<and> cur \<notin> set rest"
proof -
  note d = table_invD(1)[OF inv] and n = table_invD(2)[OF inv]
    and s0 = table_invD(3)[OF inv] and du = table_invD(4)[OF inv]
    and su = table_invD(5)[OF inv] and ex = table_invD(6)[OF inv]
    and k = table_invD(7)[OF inv] and dt = table_invD(8)[OF inv]
    and f = table_invD(9)[OF inv]
  from du su have c: "cur \<in> fst ` set sts" "cur \<notin> set rest" "distinct rest"
    "set rest \<subseteq> fst ` set sts" by auto
  have 6: "expanded st sts trns S
          (if S \<in> set rest then {} else if S = cur then {} else set (alphabet st))"
    if S: "S \<in> fst ` set sts" for S
    using ex[OF S] by (auto split: if_splits)
  from c(1) d obtain i where i: "map_of sts cur = Some i"
    by (metis map_of_eq_None_iff not_Some_eq)
  from m i have f': "finals' = (if e \<in> cur then insert i finals else finals)"
    by (auto simp: mark_final_def)
  have 9: "finals' = {i. \<exists>S. map_of sts S = Some i \<and> S \<notin> set rest \<and> e \<in> S}"
    unfolding f' f using i c(2) by auto
  from d n s0 c(3,4) 6 k dt 9 have "table_inv st e start cur {} sts rest trns finals'"
    by (rule table_invI)
  with c show ?thesis by simp
qed

lemma construct_loop_table_inv:
  assumes "construct_loop st e ([(start, 0)], [start], [], {}) = Some (Inr (sts, trns, finals))"
  shows "table_inv st e start c (set (alphabet st)) sts [] trns finals"
proof -
  let ?I = "\<lambda>s. case s of (sts, um, trns, finals) \<Rightarrow>
              table_inv st e start c (set (alphabet st)) sts um trns finals"
  have "?I (sts, [], trns, finals)"
  proof (rule construct_loop_invariant[where I = ?I, OF assms])
    have "expanded st [(start, 0)] [] start {}" unfolding expanded_def by simp
    then have "table_inv st e start c (set (alphabet st)) [(start, 0)] [start] [] {}"
      by (intro table_invI) auto
    then show "?I ([(start, 0)], [start], [], {})" by simp
  next
    fix sts um trns finals cur rest finals' sts' um' trns'
    assume a: "?I (sts, cur # rest, trns, finals)"
      and m: "mark_final e cur sts finals = Inr finals'"
      and f: "foldE (expand_symbol st cur) (alphabet st) (sts, rest, trns) =
                Inr (sts', um', trns')"
    from a have "table_inv st e start c (set (alphabet st)) sts (cur # rest) trns finals"
      by simp
    from table_inv_pop[OF this m]
    have p: "table_inv st e start cur {} sts rest trns finals'"
      "cur \<in> fst ` set sts" "cur \<notin> set rest" by auto
    from table_inv_cur[OF expand_alphabet_inv[OF p f]]
    show "?I (sts', um', trns', finals')" by simp
  qed
  then show ?thesis by simp
qed

section \<open>The position of the end-marker\<close>

lemma spec_insert_concat_hash:
  "filter (\<lambda>x. x = c_hash) (spec_insert_concat r) = filter (\<lambda>x. x = c_hash) r"
proof (induction r rule: spec_insert_concat.induct)
  case (1 c1 c2 cs)
  then show ?case by (cases "needs_concat c1 c2") auto
qed auto

lemma pop_to_lparen_hash:
  assumes "pop_to_lparen out stk = (out', stk')" and "c_hash \<notin> set stk"
  shows "filter (\<lambda>x. x = c_hash) out' = filter (\<lambda>x. x = c_hash) out \<and> c_hash \<notin> set stk'"
  using assms by (induction stk arbitrary: out) (auto split: if_splits)

lemma pop_operators_hash:
  assumes "pop_operators c out stk = (out', stk')" and "c_hash \<notin> set stk"
  shows "filter (\<lambda>x. x = c_hash) out' = filter (\<lambda>x. x = c_hash) out \<and> c_hash \<notin> set stk'"
  using assms by (induction stk arbitrary: out) (auto split: if_splits)

lemma shunt_hash:
  assumes "shunt c (out, stk) = (out', stk')" and "c_hash \<notin> set stk"
  shows "filter (\<lambda>x. x = c_hash) out' =
           filter (\<lambda>x. x = c_hash) out @ filter (\<lambda>x. x = c_hash) [c] \<and>
         c_hash \<notin> set stk'"
proof -
  consider (sym) "c \<notin> set [c_lparen, c_rparen, c_bar, c_star, c_plus, c_opt, c_dot]"
    | (lp) "c = c_lparen" | (rp) "c = c_rparen"
    | (op) "c \<in> set [c_bar, c_star, c_plus, c_opt, c_dot]" by auto
  then show ?thesis
  proof cases
    case sym
    with assms show ?thesis by (auto simp: shunt_def)
  next
    case lp
    with assms show ?thesis by (auto simp: shunt_def)
  next
    case rp
    obtain o1 s1 where p: "pop_to_lparen out stk = (o1, s1)" by (cases "pop_to_lparen out stk")
    from pop_to_lparen_hash[OF p assms(2)] assms(1) rp p show ?thesis
      by (auto simp: shunt_def split: list.splits if_splits)
  next
    case op
    obtain o1 s1 where p: "pop_operators c out stk = (o1, s1)"
      by (cases "pop_operators c out stk")
    from pop_operators_hash[OF p assms(2)] assms(1) op p show ?thesis
      by (auto simp: shunt_def)
  qed
qed

lemma fold_shunt_hash:
  assumes "fold shunt cs (out, stk) = (out', stk')" and "c_hash \<notin> set stk"
  shows "filter (\<lambda>x. x = c_hash) out' =
           filter (\<lambda>x. x = c_hash) out @ filter (\<lambda>x. x = c_hash) cs \<and>
         c_hash \<notin> set stk'"
  using assms
proof (induction cs arbitrary: out stk)
  case Nil
  then show ?case by simp
next
  case (Cons c cs)
  obtain o1 s1 where s: "shunt c (out, stk) = (o1, s1)" by (cases "shunt c (out, stk)")
  from shunt_hash[OF s Cons.prems(2)] Cons.IH[of o1 s1] Cons.prems(1) s
  show ?case by simp
qed

lemma infix_to_postfix_hash:
  assumes "infix_to_postfix r = Inr postfix"
  shows "filter (\<lambda>x. x = c_hash) postfix = filter (\<lambda>x. x = c_hash) r"
proof -
  from assms have ne: "r \<noteq> []"
    by (auto simp: infix_to_postfix_def explicit_concat_def split: if_splits)
  obtain out stk where f: "fold shunt (spec_insert_concat r) ([], []) = (out, stk)"
    by (cases "fold shunt (spec_insert_concat r) ([], [])")
  with assms explicit_concat_eq[OF ne] have p: "postfix = out @ stk"
    by (simp add: infix_to_postfix_def)
  from fold_shunt_hash[OF f] have "filter (\<lambda>x. x = c_hash) out =
      filter (\<lambda>x. x = c_hash) (spec_insert_concat r)" "c_hash \<notin> set stk" by simp_all
  then have "filter (\<lambda>x. x = c_hash) (out @ stk) = filter (\<lambda>x. x = c_hash) r"
    by (auto simp: spec_insert_concat_hash filter_empty_conv)
  with p show ?thesis by simp
qed

lemma filter_single_index:
  assumes "filter P xs = [x]"
  shows "\<exists>m. m < length xs \<and> (\<forall>k < length xs. P (xs ! k) \<longleftrightarrow> k = m)"
proof -
  have "card {i. i < length xs \<and> P (xs ! i)} = 1"
    using assms length_filter_conv_card[of P xs] by simp
  then obtain m where m: "{i. i < length xs \<and> P (xs ! i)} = {m}"
    by (auto simp: card_1_singleton_iff)
  then have "m < length xs" by blast
  moreover have "P (xs ! k) \<longleftrightarrow> k = m" if "k < length xs" for k
    using m that by blast
  ultimately show ?thesis by blast
qed

lemma map_of_zip_upt:
  "map_of (zip [1..<Suc (length vs)] vs) p = Some v \<longleftrightarrow>
     1 \<le> p \<and> p \<le> length vs \<and> vs ! (p - 1) = v"
proof -
  have d: "distinct (map fst (zip [1..<Suc (length vs)] vs))" by simp
  have "map_of (zip [1..<Suc (length vs)] vs) p = Some v \<longleftrightarrow>
        (p, v) \<in> set (zip [1..<Suc (length vs)] vs)"
    using d by simp
  also have "\<dots> \<longleftrightarrow> (\<exists>m < length vs. [1..<Suc (length vs)] ! m = p \<and> vs ! m = v)"
    by (auto simp: in_set_zip)
  also have "\<dots> \<longleftrightarrow> 1 \<le> p \<and> p \<le> length vs \<and> vs ! (p - 1) = v"
  proof
    assume "\<exists>m < length vs. [1..<Suc (length vs)] ! m = p \<and> vs ! m = v"
    then obtain m where "m < length vs" "p = Suc m" "vs ! m = v"
      by (auto simp: nth_upt simp del: upt_Suc)
    then show "1 \<le> p \<and> p \<le> length vs \<and> vs ! (p - 1) = v" by simp
  next
    assume a: "1 \<le> p \<and> p \<le> length vs \<and> vs ! (p - 1) = v"
    then have "p - 1 < length vs" "[1..<Suc (length vs)] ! (p - 1) = p"
      by (auto simp: nth_upt simp del: upt_Suc)
    with a show "\<exists>m < length vs. [1..<Suc (length vs)] ! m = p \<and> vs ! m = v" by blast
  qed
  finally show ?thesis .
qed

lemma end_marker_unique:
  assumes p: "parse_regex (init sigma regex) = Inr st" and h: "c_hash \<notin> set regex"
  shows "\<exists>end_pos. \<forall>p. map_of (pos_to_symbol st) p = Some c_hash \<longleftrightarrow> p = end_pos"
proof -
  from parse_regex_tree[OF p] obtain postfix tree st' where
    i: "infix_to_postfix (augmented_regex (init sigma regex)) = Inr postfix"
    and b: "build_syntax_tree postfix (init sigma regex) = Inr (tree, st')"
    and ps: "pos_to_symbol st = pos_to_symbol st'" "next_pos st = next_pos st'"
    by blast
  have "pos_to_symbol (init sigma regex) = []" "next_pos (init sigma regex) = 1"
    by (simp_all add: init_def)
  from build_syntax_tree_numbering[OF b this]
  have ok: "numbering_ok (leaf_info tree) (pos_to_symbol st') (next_pos st')"
    and o: "map fst (leaf_info tree) = filter (\<lambda>c. \<not> is_operator c) postfix" by simp_all
  let ?vs = "map fst (numbered (leaf_info tree))"
  from ok have n: "map snd (numbered (leaf_info tree)) = map Some [1..<next_pos st']"
    and np: "1 \<le> next_pos st'"
    and z: "pos_to_symbol st' = zip [1..<next_pos st'] ?vs"
    unfolding numbering_ok_def by blast+
  from n have "length (numbered (leaf_info tree)) = next_pos st' - 1"
    by (metis length_map length_upt)
  with np have len: "next_pos st' = Suc (length ?vs)" by simp
  have "?vs = filter (\<lambda>c. c \<noteq> c_eps) (map fst (leaf_info tree))"
    by (simp add: numbered_def filter_map o_def)
  then have "filter (\<lambda>x. x = c_hash) ?vs = filter (\<lambda>x. x = c_hash) postfix"
    unfolding o by (auto simp: is_operator_def intro: filter_cong)
  also have "\<dots> = filter (\<lambda>x. x = c_hash) (augmented_regex (init sigma regex))"
    using i by (rule infix_to_postfix_hash)
  also have "\<dots> = [c_hash]" using h by (auto simp: init_def filter_empty_conv)
  finally obtain m where m: "m < length ?vs"
    "\<And>k. k < length ?vs \<Longrightarrow> ?vs ! k = c_hash \<longleftrightarrow> k = m"
    using filter_single_index[of "\<lambda>x. x = c_hash" ?vs c_hash] by blast
  have "map_of (pos_to_symbol st) p = Some c_hash \<longleftrightarrow> p = Suc m" for p
    unfolding ps z len map_of_zip_upt using m by (cases p) auto
  then show ?thesis by blast
qed


lemma find_Some_set: "find P xs = Some x \<Longrightarrow> x \<in> set xs \<and> P x"
  by (induction xs) (auto split: if_splits)

lemma find_end_pos_Some:
  assumes "find_end_pos p2s = Some end_pos" and "distinct (map fst p2s)"
  shows "map_of p2s end_pos = Some c_hash"
proof -
  from assms(1) obtain x where x: "find (\<lambda>(pos, symbol). symbol = c_hash) p2s = Some x"
    and e: "end_pos = fst x" by (auto simp: find_end_pos_def)
  from find_Some_set[OF x] have "x \<in> set p2s" "snd x = c_hash"
    by (auto split: prod.splits)
  with e assms(2) show ?thesis by (cases x) simp
qed

lemma construct_table_inv:
  assumes "construct_table st = Some (Inr (sts, trns, finals))"
  shows "\<exists>root end_pos. syntax_tree st = Some root \<and>
           find_end_pos (pos_to_symbol st) = Some end_pos \<and>
           table_inv st end_pos (firstpos root) {} (set (alphabet st)) sts [] trns finals"
proof -
  from assms obtain root end_pos where r: "syntax_tree st = Some root"
    and e: "find_end_pos (pos_to_symbol st) = Some end_pos"
    and l: "construct_loop st end_pos ([(firstpos root, 0)], [firstpos root], [], {}) =
              Some (Inr (sts, trns, finals))"
    by (auto simp: construct_table_def split: option.splits)
  from construct_loop_table_inv[OF l] r e show ?thesis by blast
qed

lemma parse_regex_distinct_positions:
  assumes "parse_regex (init sigma regex) = Inr st"
  shows "distinct (map fst (pos_to_symbol st))"
proof -
  from parse_regex_tree[OF assms] obtain postfix tree st' where
    b: "build_syntax_tree postfix (init sigma regex) = Inr (tree, st')"
    and ps: "pos_to_symbol st = pos_to_symbol st'" by blast
  have "pos_to_symbol (init sigma regex) = []" "next_pos (init sigma regex) = 1"
    by (simp_all add: init_def)
  from build_syntax_tree_numbering[OF b this]
  have "numbering_ok (leaf_info tree) (pos_to_symbol st') (next_pos st')" by simp
  then have "pos_to_symbol st' =
      zip [1..<next_pos st'] (map fst (numbered (leaf_info tree)))"
    unfolding numbering_ok_def by blast
  then show ?thesis unfolding ps by (simp add: map_fst_zip_take)
qed

text \<open>
  What the constructor does on every expression, and where its final states are right.
  After \<open>parse_regex\<close>, let the loop end with the dictionary \<open>sts\<close> of states, the
  transitions and the final states; \<open>construct_dfa\<close> stores them with the initial state
  0. The set \<open>root.firstpos\<close> is state 0, and no two sets share a number. For a state and
  a symbol of the alphabet there is no transition entry when the union of
  \<open>followpos[p]\<close> over the positions \<open>p\<close> of the state mapped to the symbol is empty, and
  otherwise the entry leads to the state of that union. When the expression has no \<open>#\<close>
  of its own, exactly one position is mapped to \<open>#\<close>, the one of the end-marker, and a
  state is final iff its set contains it.
\<close>

theorem construct_dfa_spec:
  assumes "parse_regex (init sigma regex) = Inr st"
    and "construct_table st = Some (Inr (sts, trns, finals))"
  shows "\<exists>root.
           syntax_tree st = Some root \<and> map_of sts (firstpos root) = Some 0 \<and>
           construct_dfa st =
             Some (Inr (st\<lparr>dfa := Some \<lparr>states = length sts, initial = 0,
                                         final_states = finals, transitions = trns\<rparr>\<rparr>)) \<and>
           (\<forall>S S' i. map_of sts S = Some i \<and> map_of sts S' = Some i \<longrightarrow> S = S') \<and>
           (c_hash \<notin> set regex \<longrightarrow>
              (\<exists>end_pos.
                 (\<forall>p. map_of (pos_to_symbol st) p = Some c_hash \<longleftrightarrow> p = end_pos) \<and>
                 (\<forall>S i. map_of sts S = Some i \<longrightarrow> (i \<in> finals \<longleftrightarrow> end_pos \<in> S)))) \<and>
           (\<forall>S i s. map_of sts S = Some i \<and> s \<in> set (alphabet st) \<longrightarrow>
              (let U = (\<Union>p \<in> {p \<in> S. map_of (pos_to_symbol st) p = Some s}. followpos st p)
               in if U = {} then map_of trns (i, s) = None
                  else map_of trns (i, s) \<noteq> None \<and> map_of trns (i, s) = map_of sts U))"
proof -
  from construct_table_inv[OF assms(2)] obtain root end_pos where
    r: "syntax_tree st = Some root"
    and e: "find_end_pos (pos_to_symbol st) = Some end_pos"
    and inv: "table_inv st end_pos (firstpos root) {} (set (alphabet st)) sts [] trns finals"
    by blast
  note d = table_invD(1)[OF inv] and n = table_invD(2)[OF inv]
  have inj: "S = S'" if "map_of sts S = Some i" "map_of sts S' = Some i" for S S' i
    using dense_inj[OF d n that] .
  have h: "map_of (pos_to_symbol st) end_pos = Some c_hash"
    using find_end_pos_Some[OF e parse_regex_distinct_positions[OF assms(1)]] .
  have u: "\<forall>p. map_of (pos_to_symbol st) p = Some c_hash \<longleftrightarrow> p = end_pos"
    if "c_hash \<notin> set regex"
    using end_marker_unique[OF assms(1) that] h by metis
  have f: "\<forall>S i. map_of sts S = Some i \<longrightarrow> (i \<in> finals \<longleftrightarrow> end_pos \<in> S)"
    unfolding table_invD(9)[OF inv] using inj by auto
  have m: "move st S s =
      (\<Union>p \<in> {p \<in> S. map_of (pos_to_symbol st) p = Some s}. followpos st p)" for S s
    by (auto simp: move_def)
  have t: "let U = (\<Union>p \<in> {p \<in> S. map_of (pos_to_symbol st) p = Some s}. followpos st p)
           in if U = {} then map_of trns (i, s) = None
              else map_of trns (i, s) \<noteq> None \<and> map_of trns (i, s) = map_of sts U"
    if "map_of sts S = Some i" "s \<in> set (alphabet st)" for S i s
  proof -
    from that(1) have "S \<in> fst ` set sts" by (rule map_of_in_keys)
    from table_invD(6)[OF inv this] that
    show ?thesis unfolding expanded_def m[symmetric] Let_def by (auto split: if_splits)
  qed
  show ?thesis
  proof (intro exI conjI)
    show "syntax_tree st = Some root" by (rule r)
    show "map_of sts (firstpos root) = Some 0" by (rule table_invD(3)[OF inv])
    show "construct_dfa st =
            Some (Inr (st\<lparr>dfa := Some \<lparr>states = length sts, initial = 0,
                                        final_states = finals, transitions = trns\<rparr>\<rparr>))"
      using assms(2) by (simp add: construct_dfa_def)
    show "\<forall>S S' i. map_of sts S = Some i \<and> map_of sts S' = Some i \<longrightarrow> S = S'"
      using inj by blast
    show "c_hash \<notin> set regex \<longrightarrow>
            (\<exists>end_pos.
               (\<forall>p. map_of (pos_to_symbol st) p = Some c_hash \<longleftrightarrow> p = end_pos) \<and>
               (\<forall>S i. map_of sts S = Some i \<longrightarrow> (i \<in> finals \<longleftrightarrow> end_pos \<in> S)))"
      using u f by blast
    show "\<forall>S i s. map_of sts S = Some i \<and> s \<in> set (alphabet st) \<longrightarrow>
            (let U = (\<Union>p \<in> {p \<in> S. map_of (pos_to_symbol st) p = Some s}. followpos st p)
             in if U = {} then map_of trns (i, s) = None
                else map_of trns (i, s) \<noteq> None \<and> map_of trns (i, s) = map_of sts U)"
      using t by blast
  qed
qed

theorem construct_dfa_spec_witness:
  "\<exists>st sts trns finals root end_pos.
     parse_regex (init [97, 98] (str ''a|b'')) = Inr st \<and>
     construct_table st = Some (Inr (sts, trns, finals)) \<and>
     c_hash \<notin> set (str ''a|b'') \<and>
     sts = [({1, 2}, 0), ({3}, 1)] \<and> finals = {1} \<and>
     syntax_tree st = Some root \<and> map_of sts (firstpos root) = Some 0 \<and>
     (\<forall>p. map_of (pos_to_symbol st) p = Some c_hash \<longleftrightarrow> p = end_pos) \<and>
     (\<forall>S i. map_of sts S = Some i \<longrightarrow> (i \<in> finals \<longleftrightarrow> end_pos \<in> S))"
proof -
  have e: "(case parse_regex (init [97, 98] (str ''a|b'')) of
              Inl e \<Rightarrow> False
            | Inr st \<Rightarrow>
                (case construct_table st of
                   Some (Inr (sts, trns, finals)) \<Rightarrow>
                     sts = [({1, 2}, 0), ({3}, 1)] \<and> finals = {1}
                 | _ \<Rightarrow> False))"
    by code_simp
  then obtain st where p: "parse_regex (init [97, 98] (str ''a|b'')) = Inr st"
    and e1: "(case construct_table st of
                Some (Inr (sts, trns, finals)) \<Rightarrow>
                  sts = [({1, 2}, 0), ({3}, 1)] \<and> finals = {1}
              | _ \<Rightarrow> False)"
    by (cases "parse_regex (init [97, 98] (str ''a|b''))") auto
  from e1 obtain sts trns finals where c: "construct_table st = Some (Inr (sts, trns, finals))"
    and v: "sts = [({1, 2}, 0), ({3}, 1)]" "finals = {1}"
    by (cases "construct_table st"; simp split: sum.splits prod.splits)
  have h: "c_hash \<notin> set (str ''a|b'')" by (simp add: str_def)
  from construct_dfa_spec[OF p c] h obtain root end_pos where
    "syntax_tree st = Some root" "map_of sts (firstpos root) = Some 0"
    "\<forall>p. map_of (pos_to_symbol st) p = Some c_hash \<longleftrightarrow> p = end_pos"
    "\<forall>S i. map_of sts S = Some i \<longrightarrow> (i \<in> finals \<longleftrightarrow> end_pos \<in> S)"
    by blast
  with p c h v show ?thesis by blast
qed

text \<open>
  C4: a state is final iff its set contains the position of the end-marker. The
  constructor means to do so (lines 198 and 212) and does on every expression without
  \<open>#\<close>, as shown above. On \<open>a#\<close> it does not. The table maps positions 2 and 3 to \<open>#\<close>;
  the end-marker is the right child of the root and has position 3; the scan of lines
  199-203 stops at position 2, the \<open>#\<close> of the expression. So the automaton stored by
  \<open>construct_dfa\<close>, with initial state 0, has state 1, the set \<open>{2}\<close>, as its final state,
  which does not hold position 3, and the string \<open>a\<close> is accepted.
\<close>

theorem end_marker_scan_defect:
  "data (the (right (the (syntax_tree (projr a_hash))))) = c_hash \<and>
   position (the (right (the (syntax_tree (projr a_hash))))) = Some 3 \<and>
   pos_to_symbol (projr a_hash) = [(1, 97), (2, c_hash), (3, c_hash)] \<and>
   find_end_pos (pos_to_symbol (projr a_hash)) = Some 2 \<and>
   construct_table (projr a_hash) =
     Some (Inr ([({1}, 0), ({2}, 1)], [((0, 97), 1)], {1})) \<and>
   dfa (projr (the (construct_dfa (projr a_hash)))) =
     Some \<lparr>states = 2, initial = 0, final_states = {1}, transitions = [((0, 97), 1)]\<rparr> \<and>
   3 \<notin> {2::nat} \<and>
   compile_and_test [97] (str ''a#'') [str ''a''] = Some (Inr (Some 2, [Inr True]))"
  by code_simp

section \<open>The automaton of construct_dfa is well formed\<close>

lemma expandedD:
  assumes "expanded st sts trns S syms" and "map_of sts S = Some i"
    and "map_of trns (i, s) = Some j"
  shows "s \<in> syms \<and> move st S s \<noteq> {} \<and> map_of sts (move st S s) = Some j"
proof -
  from assms(1,2) have "if s \<in> syms \<and> move st S s \<noteq> {}
             then map_of trns (i, s) = map_of sts (move st S s) \<and>
                  map_of sts (move st S s) \<noteq> None
             else map_of trns (i, s) = None"
    unfolding expanded_def by auto
  with assms(3) show ?thesis by (auto split: if_splits)
qed

lemma construct_table_wf:
  assumes "construct_table st = Some (Inr (sts, trns, finals))"
  shows "wf_dfa (alphabet st) \<lparr>states = length sts, initial = 0, final_states = finals,
                               transitions = trns\<rparr>"
proof -
  from construct_table_inv[OF assms] obtain root end_pos where
    inv: "table_inv st end_pos (firstpos root) {} (set (alphabet st)) sts [] trns finals"
    by blast
  note d = table_invD(1)[OF inv] and n = table_invD(2)[OF inv]
    and k = table_invD(7)[OF inv] and dt = table_invD(8)[OF inv]
  have t: "q < length sts \<and> q' < length sts \<and> s \<in> set (alphabet st)"
    if "((q, s), q') \<in> set trns" for q s q'
  proof -
    from that k have q: "q < length sts" by force
    from that dt have m: "map_of trns (q, s) = Some q'" by simp
    obtain S where S: "sts ! q = (S, q)"
      using q n by (metis nth_map nth_upt add_0 prod.collapse snd_conv length_map)
    with q have i: "map_of sts S = Some q" unfolding dense_lookup[OF d n] by simp
    from expandedD[OF table_invD(6)[OF inv map_of_in_keys[OF i]] i m]
    have "s \<in> set (alphabet st)" "map_of sts (move st S s) = Some q'"
      by simp_all
    with q show ?thesis unfolding dense_lookup[OF d n] by simp
  qed
  have f: "finals \<subseteq> {0..<length sts}"
    unfolding table_invD(9)[OF inv] dense_lookup[OF d n] by auto
  from table_invD(3)[OF inv] have i: "0 < length sts" unfolding dense_lookup[OF d n] by simp
  from t dt f i show ?thesis unfolding wf_dfa_def by auto
qed

lemma construct_dfa_wf:
  assumes "construct_dfa st = Some (Inr st')"
  shows "\<exists>d. dfa st' = Some d \<and> wf_dfa (alphabet st') d \<and> alphabet st' = alphabet st \<and>
           minimized_dfa st' = minimized_dfa st"
proof -
  from assms obtain sts trns finals where
    c: "construct_table st = Some (Inr (sts, trns, finals))"
    and s: "st' = st\<lparr>dfa := Some \<lparr>states = length sts, initial = 0, final_states = finals,
                                    transitions = trns\<rparr>\<rparr>"
    by (auto simp: construct_dfa_def split: option.splits sum.splits)
  from construct_table_wf[OF c] s show ?thesis by simp
qed

section \<open>The state mapping\<close>

lemma state_mapping_fold_keep:
  "m0 q \<noteq> None \<Longrightarrow>
   fold (\<lambda>(i, block) m. (\<lambda>state. if state \<in> block then Some i else m state))
     (enumerate k P) m0 q \<noteq> None"
  by (induction P arbitrary: k m0) auto

lemma state_mapping_fold_defined:
  "q \<in> \<Union> (set P) \<Longrightarrow>
   fold (\<lambda>(i, block) m. (\<lambda>state. if state \<in> block then Some i else m state))
     (enumerate k P) m0 q \<noteq> None"
proof (induction P arbitrary: k m0)
  case Nil
  then show ?case by simp
next
  case (Cons B P)
  show ?case
  proof (cases "q \<in> B")
    case True
    then show ?thesis by (simp add: state_mapping_fold_keep)
  next
    case False
    with Cons.prems have "q \<in> \<Union> (set P)" by simp
    from Cons.IH[OF this] show ?thesis by simp
  qed
qed

lemma state_mapping_fold_member:
  "fold (\<lambda>(i, block) m. (\<lambda>state. if state \<in> block then Some i else m state))
     (enumerate k P) m0 q = Some i \<Longrightarrow>
   m0 q = Some i \<or> (k \<le> i \<and> i < k + length P \<and> q \<in> P ! (i - k))"
proof (induction P arbitrary: k m0)
  case Nil
  then show ?case by simp
next
  case (Cons B P)
  let ?m1 = "\<lambda>state. if state \<in> B then Some k else m0 state"
  from Cons.prems have "fold (\<lambda>(i, block) m. (\<lambda>state. if state \<in> block then Some i else m state))
     (enumerate (Suc k) P) ?m1 q = Some i" by simp
  from Cons.IH[OF this] show ?case
  proof
    assume "?m1 q = Some i"
    then show ?thesis by (auto split: if_splits)
  next
    assume a: "Suc k \<le> i \<and> i < Suc k + length P \<and> q \<in> P ! (i - Suc k)"
    then have "(B # P) ! (i - k) = P ! (i - Suc k)" by (simp add: nth_Cons')
    with a show ?thesis by auto
  qed
qed

lemma state_mapping_fold_cong:
  "\<forall>B \<in> set P. p \<in> B \<longleftrightarrow> q \<in> B \<Longrightarrow> m0 p = m0 q \<Longrightarrow>
   fold (\<lambda>(i, block) m. (\<lambda>state. if state \<in> block then Some i else m state))
     (enumerate k P) m0 p =
   fold (\<lambda>(i, block) m. (\<lambda>state. if state \<in> block then Some i else m state))
     (enumerate k P) m0 q"
  by (induction P arbitrary: k m0) auto

lemma state_mapping_defined: "q \<in> \<Union> (set P) \<Longrightarrow> state_mapping P q \<noteq> None"
  unfolding state_mapping_def by (rule state_mapping_fold_defined)

lemma state_mapping_member:
  "state_mapping P q = Some i \<Longrightarrow> i < length P \<and> q \<in> P ! i"
  unfolding state_mapping_def using state_mapping_fold_member[of 0 P "\<lambda>state. None" q i]
  by simp

lemma state_mapping_cong:
  "\<forall>B \<in> set P. p \<in> B \<longleftrightarrow> q \<in> B \<Longrightarrow> state_mapping P p = state_mapping P q"
  unfolding state_mapping_def by (rule state_mapping_fold_cong) simp_all


section \<open>The refinement loop of minimize_dfa\<close>

lemma predecessors_iff:
  "q \<in> predecessors d X s \<longleftrightarrow>
     q < states d \<and> (\<exists>q'. map_of (transitions d) (q, s) = Some q' \<and> q' \<in> X)"
  by (auto simp: predecessors_def split: option.splits)

lemma sep_union:
  assumes "sep d (B1 \<union> B2) s p q"
  shows "sep d B1 s p q \<or> sep d B2 s p q"
  using assms unfolding sep_def predecessors_iff by auto

lemma sep_split:
  assumes "B1 \<inter> B2 = {}" and "\<not> sep d (B1 \<union> B2) s p q" and "sep d B1 s p q"
  shows "sep d B2 s p q"
  using assms unfolding sep_def predecessors_iff by auto

lemma sep_split':
  assumes "B1 \<inter> B2 = {}" and "\<not> sep d (B1 \<union> B2) s p q" and "sep d B2 s p q"
  shows "sep d B1 s p q"
  using assms unfolding sep_def predecessors_iff by auto

lemma refine_invD:
  assumes "refine_inv d sigma A pending P W"
  shows "\<Union> (set P) = {0..<states d}"
    and "\<And>B. B \<in> set P \<Longrightarrow> B \<subseteq> final_states d \<or> B \<inter> final_states d = {}"
    and "\<And>B p q s X. B \<in> set P \<Longrightarrow> p \<in> B \<Longrightarrow> q \<in> B \<Longrightarrow> s \<in> set sigma \<Longrightarrow> X \<in> set P \<Longrightarrow>
           sep d X s p q \<Longrightarrow>
           (\<exists>T \<in> set W. sep d T s p q) \<or> (s \<in> pending \<and> sep d A s p q)"
proof -
  note a = assms[unfolded refine_inv_def]
  note 1 = a[THEN conjunct1] and 2 = a[THEN conjunct2, THEN conjunct1]
    and 3 = a[THEN conjunct2, THEN conjunct2]
  show "\<Union> (set P) = {0..<states d}" by (rule 1)
  show "B \<subseteq> final_states d \<or> B \<inter> final_states d = {}" if "B \<in> set P" for B
    using 2 that by (rule bspec)
  show "(\<exists>T \<in> set W. sep d T s p q) \<or> (s \<in> pending \<and> sep d A s p q)"
    if "B \<in> set P" "p \<in> B" "q \<in> B" "s \<in> set sigma" "X \<in> set P" "sep d X s p q"
    for B p q s X
    using 3[rule_format, OF that] .
qed

lemma refine_invI:
  assumes "\<Union> (set P) = {0..<states d}"
    and "\<And>B. B \<in> set P \<Longrightarrow> B \<subseteq> final_states d \<or> B \<inter> final_states d = {}"
    and "\<And>B p q s X. B \<in> set P \<Longrightarrow> p \<in> B \<Longrightarrow> q \<in> B \<Longrightarrow> s \<in> set sigma \<Longrightarrow> X \<in> set P \<Longrightarrow>
           sep d X s p q \<Longrightarrow>
           (\<exists>T \<in> set W. sep d T s p q) \<or> (s \<in> pending \<and> sep d A s p q)"
  shows "refine_inv d sigma A pending P W"
  unfolding refine_inv_def
proof (intro conjI ballI impI)
  show "\<Union> (set P) = {0..<states d}" by (rule assms(1))
next
  fix B assume "B \<in> set P"
  then show "B \<subseteq> final_states d \<or> B \<inter> final_states d = {}" by (rule assms(2))
next
  fix B p q s X
  assume "B \<in> set P" "p \<in> B" "q \<in> B" "s \<in> set sigma" "X \<in> set P" "sep d X s p q"
  then show "(\<exists>T \<in> set W. sep d T s p q) \<or> (s \<in> pending \<and> sep d A s p q)"
    by (rule assms(3))
qed

lemma refine_inv_split:
  assumes inv: "refine_inv d sigma A pending (L @ B # R) W"
    and ne: "B \<inter> X \<noteq> {}" "B - X \<noteq> {}"
    and W': "W' = (if B \<in> set W then remove1 B W @ [B \<inter> X, B - X]
                  else if card (B \<inter> X) \<le> card (B - X) then W @ [B \<inter> X]
                  else W @ [B - X])"
  shows "refine_inv d sigma A pending (L @ [B \<inter> X, B - X] @ R) W'"
proof (rule refine_invI)
  let ?B1 = "B \<inter> X" and ?B2 = "B - X"
  let ?P = "L @ B # R" and ?P' = "L @ [B \<inter> X, B - X] @ R"
  have B: "B = ?B1 \<union> ?B2" "?B1 \<inter> ?B2 = {}" by auto
  show "\<Union> (set ?P') = {0..<states d}"
    using refine_invD(1)[OF inv] by auto
  show "C \<subseteq> final_states d \<or> C \<inter> final_states d = {}" if "C \<in> set ?P'" for C
  proof -
    from that consider "C \<in> set ?P" | "C = ?B1" | "C = ?B2" by auto
    then show ?thesis
    proof cases
      case 1
      then show ?thesis by (rule refine_invD(2)[OF inv])
    next
      case 2
      with refine_invD(2)[OF inv, of B] show ?thesis by auto
    next
      case 3
      with refine_invD(2)[OF inv, of B] show ?thesis by auto
    qed
  qed
  show "(\<exists>T \<in> set W'. sep d T s p q) \<or> (s \<in> pending \<and> sep d A s p q)"
    if C': "C' \<in> set ?P'" and p: "p \<in> C'" and q: "q \<in> C'" and s: "s \<in> set sigma"
      and X': "X' \<in> set ?P'" and sp: "sep d X' s p q" for C' p q s X'
  proof -
    from C' p q obtain C where C: "C \<in> set ?P" "p \<in> C" "q \<in> C" by auto
    note old = refine_invD(3)[OF inv C s]
    have keep: "\<exists>T' \<in> set W'. sep d T' s p q" if T: "T \<in> set W" "sep d T s p q" for T
    proof (cases "T = B")
      case True
      with T have bw: "B \<in> set W" and sb: "sep d (?B1 \<union> ?B2) s p q"
        using B(1) by simp_all
      from bw W' have w: "W' = remove1 B W @ [?B1, ?B2]" by simp
      from sep_union[OF sb] show ?thesis unfolding w by auto
    next
      case False
      with T(1) have "T \<in> set W'" unfolding W' by simp
      with T(2) show ?thesis by blast
    qed
    have one: "?B1 \<in> set W' \<or> ?B2 \<in> set W'" unfolding W' by simp
    show ?thesis
    proof (cases "X' = ?B1 \<or> X' = ?B2")
      case False
      with X' have "X' \<in> set ?P" by auto
      from old[OF this sp] keep show ?thesis by blast
    next
      case True
      show ?thesis
      proof (cases "sep d B s p q")
        case True
        have "B \<in> set ?P" by simp
        from old[OF this True] keep show ?thesis by blast
      next
        case False
        then have n: "\<not> sep d (?B1 \<union> ?B2) s p q" using B(1) by simp
        from True sp sep_split[OF B(2) n] sep_split'[OF B(2) n]
        have "sep d ?B1 s p q \<and> sep d ?B2 s p q" by blast
        with one show ?thesis by blast
      qed
    qed
  qed
qed


lemma split_fold_inv:
  assumes "refine_inv d sigma A pending (NP @ todo) W"
    and "\<forall>B \<in> set NP. B \<subseteq> X \<or> B \<inter> X = {}"
    and "fold (split_partition X) todo (NP, W) = (P', W')"
  shows "refine_inv d sigma A pending P' W' \<and> (\<forall>B \<in> set P'. B \<subseteq> X \<or> B \<inter> X = {})"
  using assms
proof (induction todo arbitrary: NP W)
  case Nil
  then show ?case by simp
next
  case (Cons B todo)
  show ?case
  proof (cases "B \<inter> X \<noteq> {} \<and> B - X \<noteq> {}")
    case True
    let ?W1 = "if B \<in> set W then remove1 B W @ [B \<inter> X, B - X]
               else if card (B \<inter> X) \<le> card (B - X) then W @ [B \<inter> X]
               else W @ [B - X]"
    from True have sp: "split_partition X B (NP, W) = (NP @ [B \<inter> X, B - X], ?W1)"
      by (simp add: split_partition_def Let_def)
    from True refine_inv_split[OF Cons.prems(1) _ _ refl, of X]
    have i: "refine_inv d sigma A pending ((NP @ [B \<inter> X, B - X]) @ todo) ?W1" by simp
    have u: "\<forall>C \<in> set (NP @ [B \<inter> X, B - X]). C \<subseteq> X \<or> C \<inter> X = {}"
      using Cons.prems(2) by auto
    from Cons.prems(3) sp
    have "fold (split_partition X) todo (NP @ [B \<inter> X, B - X], ?W1) = (P', W')" by simp
    from Cons.IH[OF i u this] show ?thesis .
  next
    case False
    then have sp: "split_partition X B (NP, W) = (NP @ [B], W)"
      by (auto simp: split_partition_def Let_def)
    from Cons.prems(1) have i: "refine_inv d sigma A pending ((NP @ [B]) @ todo) W" by simp
    have u: "\<forall>C \<in> set (NP @ [B]). C \<subseteq> X \<or> C \<inter> X = {}"
      using Cons.prems(2) False by auto
    from Cons.prems(3) sp
    have "fold (split_partition X) todo (NP @ [B], W) = (P', W')" by simp
    from Cons.IH[OF i u this] show ?thesis .
  qed
qed

lemma refine_symbol_inv:
  assumes inv: "refine_inv d sigma A pending P W"
    and r: "refine_symbol d A s (P, W) = (P', W')"
  shows "refine_inv d sigma A (pending - {s}) P' W'"
proof -
  let ?X = "predecessors d A s"
  from r have f: "fold (split_partition ?X) P ([], W) = (P', W')"
    by (simp add: refine_symbol_def)
  from split_fold_inv[of d sigma A pending "[]" P W ?X P' W'] inv f
  have i: "refine_inv d sigma A pending P' W'"
    and u: "\<And>B. B \<in> set P' \<Longrightarrow> B \<subseteq> ?X \<or> B \<inter> ?X = {}" by auto
  show ?thesis
  proof (rule refine_invI)
    show "\<Union> (set P') = {0..<states d}" by (rule refine_invD(1)[OF i])
    show "B \<subseteq> final_states d \<or> B \<inter> final_states d = {}" if "B \<in> set P'" for B
      using that by (rule refine_invD(2)[OF i])
    show "(\<exists>T \<in> set W'. sep d T s' p q) \<or> (s' \<in> pending - {s} \<and> sep d A s' p q)"
      if h: "B \<in> set P'" "p \<in> B" "q \<in> B" "s' \<in> set sigma" "X \<in> set P'" "sep d X s' p q"
      for B p q s' X
    proof -
      from u[OF h(1)] h(2,3) have "\<not> sep d A s p q" unfolding sep_def by auto
      with refine_invD(3)[OF i h] show ?thesis by auto
    qed
  qed
qed

lemma refine_inv_mono:
  assumes inv: "refine_inv d sigma A pending P W" and "pending \<subseteq> pending'"
  shows "refine_inv d sigma A pending' P W"
proof (rule refine_invI)
  show "\<Union> (set P) = {0..<states d}" by (rule refine_invD(1)[OF inv])
  show "B \<subseteq> final_states d \<or> B \<inter> final_states d = {}" if "B \<in> set P" for B
    using that by (rule refine_invD(2)[OF inv])
  show "(\<exists>T \<in> set W. sep d T s p q) \<or> (s \<in> pending' \<and> sep d A s p q)"
    if h: "B \<in> set P" "p \<in> B" "q \<in> B" "s \<in> set sigma" "X \<in> set P" "sep d X s p q"
    for B p q s X
    using refine_invD(3)[OF inv h] assms(2) by auto
qed

lemma refine_alphabet_inv:
  assumes "refine_inv d sigma A (set syms) P W"
    and "fold (refine_symbol d A) syms (P, W) = (P', W')"
  shows "refine_inv d sigma A {} P' W'"
  using assms
proof (induction syms arbitrary: P W)
  case Nil
  then show ?case by simp
next
  case (Cons s syms)
  obtain P1 W1 where r: "refine_symbol d A s (P, W) = (P1, W1)"
    by (cases "refine_symbol d A s (P, W)")
  from refine_symbol_inv[OF Cons.prems(1) r]
  have "refine_inv d sigma A (set syms) P1 W1" by (rule refine_inv_mono) auto
  from Cons.IH[OF this] Cons.prems(2) r show ?case by simp
qed

lemma refine_inv_pop:
  assumes inv: "refine_inv d sigma A0 {} P (A # rest)"
  shows "refine_inv d sigma A (set sigma) P rest"
proof (rule refine_invI)
  show "\<Union> (set P) = {0..<states d}" by (rule refine_invD(1)[OF inv])
  show "B \<subseteq> final_states d \<or> B \<inter> final_states d = {}" if "B \<in> set P" for B
    using that by (rule refine_invD(2)[OF inv])
  show "(\<exists>T \<in> set rest. sep d T s p q) \<or> (s \<in> set sigma \<and> sep d A s p q)"
    if h: "B \<in> set P" "p \<in> B" "q \<in> B" "s \<in> set sigma" "X \<in> set P" "sep d X s p q"
    for B p q s X
    using refine_invD(3)[OF inv h] h(4) by auto
qed

lemma refine_inv_any:
  assumes inv: "refine_inv d sigma A {} P W"
  shows "refine_inv d sigma A' {} P W"
proof (rule refine_invI)
  show "\<Union> (set P) = {0..<states d}" by (rule refine_invD(1)[OF inv])
  show "B \<subseteq> final_states d \<or> B \<inter> final_states d = {}" if "B \<in> set P" for B
    using that by (rule refine_invD(2)[OF inv])
  show "(\<exists>T \<in> set W. sep d T s p q) \<or> (s \<in> {} \<and> sep d A' s p q)"
    if h: "B \<in> set P" "p \<in> B" "q \<in> B" "s \<in> set sigma" "X \<in> set P" "sep d X s p q"
    for B p q s X
    using refine_invD(3)[OF inv h] by auto
qed

lemma refine_loop_inv:
  assumes run: "refine_loop d sigma (P0, W0) = Some P"
    and init: "refine_inv d sigma A0 {} P0 W0"
  shows "refine_inv d sigma A0 {} P []"
proof -
  let ?Q = "\<lambda>d0 sigma0 s r. d0 = d \<longrightarrow> sigma0 = sigma \<longrightarrow>
              refine_inv d sigma A0 {} (fst s) (snd s) \<longrightarrow> refine_inv d sigma A0 {} r []"
  have "?Q d0 sigma0 s r" if "refine_loop d0 sigma0 s = Some r" for d0 sigma0 s r
    using that
  proof (induction d0 sigma0 s r rule: refine_loop.raw_induct[rotated 1, consumes 1])
    case (1 loop d0 sigma0 s r)
    note IH = 1(1) and body = 1(2)
    show ?case
    proof (intro impI)
      assume eq: "d0 = d" "sigma0 = sigma"
        and I0: "refine_inv d sigma A0 {} (fst s) (snd s)"
      obtain Ps Ws where s: "s = (Ps, Ws)" by (cases s)
      show "refine_inv d sigma A0 {} r []"
      proof (cases Ws)
        case Nil
        with body s I0 show ?thesis by simp
      next
        case (Cons A rest)
        obtain P1 W1 where f: "fold (refine_symbol d A) sigma (Ps, rest) = (P1, W1)"
          by (cases "fold (refine_symbol d A) sigma (Ps, rest)")
        from body s Cons f eq have l: "loop d0 sigma0 (P1, W1) = Some r" by simp
        from I0 s Cons have "refine_inv d sigma A0 {} Ps (A # rest)" by simp
        from refine_alphabet_inv[OF refine_inv_pop[OF this] f]
        have "refine_inv d sigma A0 {} P1 W1" by (rule refine_inv_any)
        with IH[OF l] eq show ?thesis by simp
      qed
    qed
  qed
  from this[OF run] init show ?thesis by simp
qed

lemma initial_partitions_inv:
  assumes "final_states d \<subseteq> {0..<states d}"
  shows "refine_inv d sigma A {} (initial_partitions d)
           (filter (\<lambda>p. p \<noteq> {}) (initial_partitions d))"
proof (rule refine_invI)
  have w: "filter (\<lambda>p. p \<noteq> {}) (initial_partitions d) = initial_partitions d"
    by (simp add: initial_partitions_def)
  show "\<Union> (set (initial_partitions d)) = {0..<states d}"
    using assms by (auto simp: initial_partitions_def)
  show "B \<subseteq> final_states d \<or> B \<inter> final_states d = {}"
    if "B \<in> set (initial_partitions d)" for B
    using that by (auto simp: initial_partitions_def split: if_splits)
  show "(\<exists>T \<in> set (filter (\<lambda>p. p \<noteq> {}) (initial_partitions d)). sep d T s p q) \<or>
        (s \<in> {} \<and> sep d A s p q)"
    if "X \<in> set (initial_partitions d)" "sep d X s p q" for B p q s X
    unfolding w using that by blast
qed

lemma refine_loop_final:
  assumes wf: "wf_dfa sigma d"
    and run: "refine_loop d sigma
                (initial_partitions d, filter (\<lambda>p. p \<noteq> {}) (initial_partitions d)) = Some P"
  shows "refine_inv d sigma {} {} P []"
proof -
  from wf have "final_states d \<subseteq> {0..<states d}" unfolding wf_dfa_def by blast
  from refine_loop_inv[OF run initial_partitions_inv[OF this]] show ?thesis .
qed

lemma stable_not_sep:
  assumes "refine_inv d sigma A {} P []"
    and "B \<in> set P" "p \<in> B" "q \<in> B" "s \<in> set sigma" "X \<in> set P"
  shows "\<not> sep d X s p q"
  using refine_invD(3)[OF assms] by auto

section \<open>The quotient automaton\<close>

lemma wf_dfa_step:
  assumes "wf_dfa sigma d" and "map_of (transitions d) (p, s) = Some p'"
  shows "p < states d \<and> p' < states d \<and> s \<in> set sigma"
proof -
  from assms(2) have "((p, s), p') \<in> set (transitions d)" by (rule map_of_SomeD)
  with assms(1) show ?thesis unfolding wf_dfa_def by force
qed

lemma block_step:
  assumes st: "refine_inv d sigma A {} P []" and wf: "wf_dfa sigma d"
    and B: "B \<in> set P" "p \<in> B" "q \<in> B" and s: "s \<in> set sigma"
    and p': "map_of (transitions d) (p, s) = Some p'"
  shows "\<exists>q'. map_of (transitions d) (q, s) = Some q' \<and>
              state_mapping P p' = state_mapping P q'"
proof -
  note u = refine_invD(1)[OF st]
  from B u have pq: "p < states d" "q < states d" by auto
  from wf_dfa_step[OF wf p'] have "p' \<in> {0..<states d}" by simp
  then have "p' \<in> \<Union> (set P)" unfolding u .
  then obtain X where X: "X \<in> set P" "p' \<in> X" by blast
  with p' pq have "p \<in> predecessors d X s" unfolding predecessors_iff by simp
  with stable_not_sep[OF st B s X(1)] have "q \<in> predecessors d X s"
    unfolding sep_def by simp
  then obtain q' where q': "map_of (transitions d) (q, s) = Some q'"
    unfolding predecessors_iff by blast
  have "p' \<in> Y \<longleftrightarrow> q' \<in> Y" if Y: "Y \<in> set P" for Y
    using stable_not_sep[OF st B s Y] p' q' pq unfolding sep_def predecessors_iff by simp
  then have "state_mapping P p' = state_mapping P q'"
    by (intro state_mapping_cong) blast
  with q' show ?thesis by blast
qed

lemma same_block:
  assumes "state_mapping P p = Some i" and "state_mapping P q = Some i"
  shows "\<exists>B \<in> set P. p \<in> B \<and> q \<in> B"
  using state_mapping_member[OF assms(1)] state_mapping_member[OF assms(2)]
  by (meson nth_mem)

lemma map_transition_keep:
  assumes "foldE (map_transition m) ts acc = Inr nt" and "map_of acc k \<noteq> None"
  shows "map_of nt k \<noteq> None"
  using assms
proof (induction ts arbitrary: acc)
  case Nil
  then show ?case by simp
next
  case (Cons t ts)
  from Cons.prems(1) obtain acc1 where t: "map_transition m t acc = Inr acc1"
    and f: "foldE (map_transition m) ts acc1 = Inr nt" by (auto split: sum.splits)
  from t Cons.prems(2) have "map_of acc1 k \<noteq> None"
    by (auto simp: map_transition_def update_conv' split: prod.splits option.splits)
  from Cons.IH[OF f this] show ?case .
qed

lemma map_transition_defined:
  assumes "foldE (map_transition m) ts acc = Inr nt" and "((src, s), dest) \<in> set ts"
  shows "\<exists>i. m src = Some i \<and> map_of nt (i, s) \<noteq> None"
  using assms
proof (induction ts arbitrary: acc)
  case Nil
  then show ?case by simp
next
  case (Cons t ts)
  from Cons.prems(1) obtain acc1 where t: "map_transition m t acc = Inr acc1"
    and f: "foldE (map_transition m) ts acc1 = Inr nt" by (auto split: sum.splits)
  show ?case
  proof (cases "t = ((src, s), dest)")
    case True
    with t obtain i where i: "m src = Some i" and "map_of acc1 (i, s) \<noteq> None"
      by (auto simp: map_transition_def update_conv' split: option.splits)
    with map_transition_keep[OF f] show ?thesis by blast
  next
    case False
    with Cons.prems(2) have "((src, s), dest) \<in> set ts" by simp
    from Cons.IH[OF f this] show ?thesis .
  qed
qed

lemma map_transition_origin:
  assumes "foldE (map_transition m) ts acc = Inr nt" and "map_of nt (i, s) = Some j"
  shows "(\<exists>src dest. ((src, s), dest) \<in> set ts \<and> m src = Some i \<and> m dest = Some j) \<or>
         map_of acc (i, s) = Some j"
  using assms
proof (induction ts arbitrary: acc)
  case Nil
  then show ?case by simp
next
  case (Cons t ts)
  from Cons.prems(1) obtain acc1 where t: "map_transition m t acc = Inr acc1"
    and f: "foldE (map_transition m) ts acc1 = Inr nt" by (auto split: sum.splits)
  from Cons.IH[OF f Cons.prems(2)] show ?case
  proof
    assume "\<exists>src dest. ((src, s), dest) \<in> set ts \<and> m src = Some i \<and> m dest = Some j"
    then show ?thesis by auto
  next
    assume a: "map_of acc1 (i, s) = Some j"
    obtain src s' dest where tt: "t = ((src, s'), dest)" by (metis prod.collapse)
    from t tt obtain i' j' where m: "m src = Some i'" "m dest = Some j'"
      and acc1: "acc1 = AList.update (i', s') j' acc"
      by (auto simp: map_transition_def split: option.splits)
    show ?thesis
    proof (cases "(i', s') = (i, s)")
      case True
      with a acc1 have "j' = j" by (simp add: update_conv')
      with True m tt show ?thesis by auto
    next
      case False
      with a acc1 have "map_of acc (i, s) = Some j" by (auto simp: update_conv')
      then show ?thesis by simp
    qed
  qed
qed

lemma quotient_dfa_fields:
  assumes "quotient_dfa d P = Inr md"
  shows "\<exists>nt new_initial.
           foldE (map_transition (state_mapping P)) (transitions d) [] = Inr nt \<and>
           transitions md = nt \<and>
           (\<forall>f \<in> final_states d. state_mapping P f \<noteq> None) \<and>
           final_states md = (\<lambda>f. the (state_mapping P f)) ` final_states d \<and>
           state_mapping P (initial d) = Some new_initial \<and> initial md = new_initial"
  using assms
  by (auto simp: quotient_dfa_def Let_def split: sum.splits if_splits option.splits)

lemma quotient_step:
  assumes st: "refine_inv d sigma A {} P []" and wf: "wf_dfa sigma d"
    and q: "quotient_dfa d P = Inr md"
    and p: "p < states d" "state_mapping P p = Some i" and s: "s \<in> set sigma"
  shows "case map_of (transitions d) (p, s) of
           None \<Rightarrow> map_of (transitions md) (i, s) = None
         | Some p' \<Rightarrow> p' < states d \<and>
             (\<exists>j. state_mapping P p' = Some j \<and> map_of (transitions md) (i, s) = Some j)"
proof -
  let ?m = "state_mapping P"
  from quotient_dfa_fields[OF q] obtain nt where
    f: "foldE (map_transition ?m) (transitions d) [] = Inr nt" and nt: "transitions md = nt"
    by blast
  from wf have dist: "distinct (map fst (transitions d))" unfolding wf_dfa_def by blast
  have origin: "\<exists>src dest. map_of (transitions d) (src, s) = Some dest \<and>
                  (\<exists>B \<in> set P. src \<in> B \<and> p \<in> B) \<and> ?m dest = Some j"
    if "map_of nt (i, s) = Some j" for j
  proof -
    from map_transition_origin[OF f that] obtain src dest where
      e: "((src, s), dest) \<in> set (transitions d)" and m: "?m src = Some i" "?m dest = Some j"
      by auto
    from e dist have "map_of (transitions d) (src, s) = Some dest" by simp
    with same_block[OF m(1) p(2)] m(2) show ?thesis by blast
  qed
  show ?thesis
  proof (cases "map_of (transitions d) (p, s)")
    case None
    have "map_of nt (i, s) = None"
    proof (rule ccontr)
      assume "map_of nt (i, s) \<noteq> None"
      then obtain j where "map_of nt (i, s) = Some j" by blast
      from origin[OF this] obtain src dest B where
        sd: "map_of (transitions d) (src, s) = Some dest" and B: "B \<in> set P" "src \<in> B" "p \<in> B"
        by blast
      from block_step[OF st wf B s sd] None show False by simp
    qed
    with None nt show ?thesis by simp
  next
    case (Some p')
    then have e: "((p, s), p') \<in> set (transitions d)" by (rule map_of_SomeD)
    from map_transition_defined[OF f e] p(2) obtain j where j: "map_of nt (i, s) = Some j"
      by auto
    from origin[OF j] obtain src dest B where
      sd: "map_of (transitions d) (src, s) = Some dest" and B: "B \<in> set P" "src \<in> B" "p \<in> B"
      and md: "?m dest = Some j" by blast
    from block_step[OF st wf B s sd] Some md have "?m p' = Some j" by simp
    with wf_dfa_step[OF wf Some] Some j nt show ?thesis by simp
  qed
qed

lemma quotient_final:
  assumes st: "refine_inv d sigma A {} P []"
    and q: "quotient_dfa d P = Inr md"
    and p: "state_mapping P p = Some i"
  shows "p \<in> final_states d \<longleftrightarrow> i \<in> final_states md"
proof
  assume "p \<in> final_states d"
  with quotient_dfa_fields[OF q] p show "i \<in> final_states md" by force
next
  assume "i \<in> final_states md"
  with quotient_dfa_fields[OF q] obtain f where f: "f \<in> final_states d"
    "state_mapping P f = Some i" by force
  from same_block[OF f(2) p] obtain B where "B \<in> set P" "f \<in> B" "p \<in> B" by blast
  with refine_invD(2)[OF st, of B] f(1) show "p \<in> final_states d" by auto
qed

lemma run_dfa_quotient:
  assumes st: "refine_inv d sigma A {} P []" and wf: "wf_dfa sigma d"
    and q: "quotient_dfa d P = Inr md"
  shows "p < states d \<Longrightarrow> state_mapping P p = Some i \<Longrightarrow>
         run_dfa sigma d p w = run_dfa sigma md i w"
proof (induction w arbitrary: p i)
  case Nil
  from quotient_final[OF st q Nil(2)] show ?case by simp
next
  case (Cons c w)
  show ?case
  proof (cases "c \<in> set sigma")
    case False
    then show ?thesis by simp
  next
    case True
    note step = quotient_step[OF st wf q Cons.prems True]
    show ?thesis
    proof (cases "map_of (transitions d) (p, c)")
      case None
      with step True show ?thesis by simp
    next
      case (Some p')
      with step obtain j where j: "p' < states d" "state_mapping P p' = Some j"
        "map_of (transitions md) (i, c) = Some j" by auto
      from Cons.IH[OF j(1,2)] Some j(3) True show ?thesis by simp
    qed
  qed
qed

lemma minimize_dfa_language:
  assumes wf: "wf_dfa (alphabet st) d" and d: "dfa st = Some d"
    and m: "minimize_dfa st = Some (Inr st')"
  shows "\<exists>md. minimized_dfa st' = Some md \<and> dfa st' = Some d \<and> alphabet st' = alphabet st \<and>
           run_dfa (alphabet st) d (initial d) w = run_dfa (alphabet st) md (initial md) w"
proof -
  from m d obtain P md where
    l: "refine_loop d (alphabet st)
          (initial_partitions d, filter (\<lambda>p. p \<noteq> {}) (initial_partitions d)) = Some P"
    and q: "quotient_dfa d P = Inr md" and s: "st' = st\<lparr>minimized_dfa := Some md\<rparr>"
    by (auto simp: minimize_dfa_def split: option.splits sum.splits)
  note stb = refine_loop_final[OF wf l]
  from quotient_dfa_fields[OF q] have i: "state_mapping P (initial d) = Some (initial md)"
    by auto
  from wf have "initial d < states d" unfolding wf_dfa_def by blast
  from run_dfa_quotient[OF stb wf q this i] s d show ?thesis by simp
qed

text \<open>
  C1: when the pipeline (\<open>parse_regex\<close>, \<open>construct_dfa\<close>, \<open>minimize_dfa\<close>) ends without
  an error, both automata are there and, for every input string, simulating it on the
  unminimized and on the minimized automaton gives the same result. This holds for every
  iteration order of the alphabet.
\<close>

theorem minimization_preserves_language:
  assumes "process (init sigma regex) = Some (Inr st)"
  shows "\<exists>d md. dfa st = Some d \<and> minimized_dfa st = Some md \<and>
           simulate_dfa st w False = Inr (run_dfa (alphabet st) d (initial d) w) \<and>
           simulate_dfa st w True = Inr (run_dfa (alphabet st) md (initial md) w) \<and>
           simulate_dfa st w True = simulate_dfa st w False"
proof -
  from assms obtain st1 st2 where "parse_regex (init sigma regex) = Inr st1"
    and c: "construct_dfa st1 = Some (Inr st2)" and m: "minimize_dfa st2 = Some (Inr st)"
    by (auto simp: process_def split: sum.splits option.splits)
  from construct_dfa_wf[OF c] obtain d where d: "dfa st2 = Some d"
    and wf: "wf_dfa (alphabet st2) d" by blast
  from minimize_dfa_language[OF wf d m, of w] obtain md where
    "minimized_dfa st = Some md" "dfa st = Some d" "alphabet st = alphabet st2"
    "run_dfa (alphabet st2) d (initial d) w = run_dfa (alphabet st2) md (initial md) w"
    by blast
  then show ?thesis by (simp add: simulate_dfa_def)
qed

theorem minimization_preserves_language_witness:
  "\<exists>st d md. process (init [97, 98, 99] (str ''ab|cb'')) = Some (Inr st) \<and>
     dfa st = Some d \<and> minimized_dfa st = Some md \<and> states d = 4 \<and> states md = 3 \<and>
     simulate_dfa st (str ''cb'') True = simulate_dfa st (str ''cb'') False \<and>
     simulate_dfa st (str ''cb'') False = Inr True"
proof -
  have e: "(case process (init [97, 98, 99] (str ''ab|cb'')) of
              Some (Inr st) \<Rightarrow>
                map_option states (dfa st) = Some 4 \<and>
                map_option states (minimized_dfa st) = Some 3 \<and>
                simulate_dfa st (str ''cb'') False = Inr True
            | _ \<Rightarrow> False)"
    by code_simp
  then obtain st where p: "process (init [97, 98, 99] (str ''ab|cb'')) = Some (Inr st)"
    and v: "map_option states (dfa st) = Some 4"
      "map_option states (minimized_dfa st) = Some 3"
      "simulate_dfa st (str ''cb'') False = Inr True"
    by (cases "process (init [97, 98, 99] (str ''ab|cb''))"; simp split: sum.splits)
  from minimization_preserves_language[OF p, of "str ''cb''"] v p show ?thesis by auto
qed

section \<open>The empty-string marker\<close>

lemma parse_regex_no_eps_position:
  assumes "parse_regex (init sigma regex) = Inr st"
  shows "map_of (pos_to_symbol st) p \<noteq> Some c_eps"
proof
  assume a: "map_of (pos_to_symbol st) p = Some c_eps"
  from parse_regex_tree[OF assms] obtain postfix tree st' where
    b: "build_syntax_tree postfix (init sigma regex) = Inr (tree, st')"
    and ps: "pos_to_symbol st = pos_to_symbol st'" by blast
  have "pos_to_symbol (init sigma regex) = []" "next_pos (init sigma regex) = 1"
    by (simp_all add: init_def)
  from build_syntax_tree_numbering[OF b this]
  have "numbering_ok (leaf_info tree) (pos_to_symbol st') (next_pos st')" by simp
  then have z: "pos_to_symbol st =
      zip [1..<next_pos st'] (map fst (numbered (leaf_info tree)))"
    unfolding numbering_ok_def ps by blast
  from a have "(p, c_eps) \<in> set (pos_to_symbol st)" by (rule map_of_SomeD)
  then have "c_eps \<in> set (map fst (numbered (leaf_info tree)))"
    unfolding z by (rule set_zip_rightD)
  then show False by (auto simp: numbered_def)
qed

lemma construct_table_symbol:
  assumes "construct_table st = Some (Inr (sts, trns, finals))"
    and "((q, s), q') \<in> set trns"
  shows "\<exists>p. map_of (pos_to_symbol st) p = Some s"
proof -
  from construct_table_inv[OF assms(1)] obtain root end_pos where
    inv: "table_inv st end_pos (firstpos root) {} (set (alphabet st)) sts [] trns finals"
    by blast
  note d = table_invD(1)[OF inv] and n = table_invD(2)[OF inv]
    and k = table_invD(7)[OF inv] and dt = table_invD(8)[OF inv]
  from assms(2) k have q: "q < length sts" by force
  from assms(2) dt have m: "map_of trns (q, s) = Some q'" by simp
  obtain S where S: "sts ! q = (S, q)"
    using q n by (metis nth_map nth_upt add_0 prod.collapse snd_conv length_map)
  with q have i: "map_of sts S = Some q" unfolding dense_lookup[OF d n] by simp
  from expandedD[OF table_invD(6)[OF inv map_of_in_keys[OF i]] i m]
  have "move st S s \<noteq> {}" by simp
  then show ?thesis by (auto simp: move_def)
qed

lemma run_dfa_no_transition:
  assumes "\<forall>q. map_of (transitions d) (q, c) = None" and "c \<in> set w"
  shows "\<not> run_dfa sigma d q w"
  using assms(2)
proof (induction w arbitrary: q)
  case Nil
  then show ?case by simp
next
  case (Cons a w)
  show ?case
  proof (cases "a = c")
    case True
    with assms(1) show ?thesis by simp
  next
    case False
    with Cons.prems have "c \<in> set w" by simp
    from Cons.IH[OF this] show ?thesis by (simp split: option.splits)
  qed
qed

lemma process_stages:
  assumes "process (init sigma regex) = Some (Inr st)"
  shows "\<exists>st1 sts trns finals P md.
           parse_regex (init sigma regex) = Inr st1 \<and>
           construct_table st1 = Some (Inr (sts, trns, finals)) \<and>
           dfa st = Some \<lparr>states = length sts, initial = 0, final_states = finals,
                          transitions = trns\<rparr> \<and>
           quotient_dfa \<lparr>states = length sts, initial = 0, final_states = finals,
                         transitions = trns\<rparr> P = Inr md \<and>
           minimized_dfa st = Some md \<and>
           pos_to_symbol st = pos_to_symbol st1 \<and> alphabet st = sigma"
proof -
  from assms obtain st1 st2 where p: "parse_regex (init sigma regex) = Inr st1"
    and c: "construct_dfa st1 = Some (Inr st2)" and m: "minimize_dfa st2 = Some (Inr st)"
    by (auto simp: process_def split: sum.splits option.splits)
  from c obtain sts trns finals where
    t: "construct_table st1 = Some (Inr (sts, trns, finals))"
    and s2: "st2 = st1\<lparr>dfa := Some \<lparr>states = length sts, initial = 0, final_states = finals,
                                      transitions = trns\<rparr>\<rparr>"
    by (auto simp: construct_dfa_def split: option.splits sum.splits)
  let ?d = "\<lparr>states = length sts, initial = 0, final_states = finals, transitions = trns\<rparr>"
  from m s2 obtain P md where q: "quotient_dfa ?d P = Inr md"
    and s3: "st = st2\<lparr>minimized_dfa := Some md\<rparr>"
    by (auto simp: minimize_dfa_def split: option.splits sum.splits)
  from parse_regex_tree[OF p] obtain postfix tree st' where
    b: "build_syntax_tree postfix (init sigma regex) = Inr (tree, st')"
    and a: "alphabet st1 = alphabet st'" by blast
  from build_syntax_tree_fields[OF b] a have "alphabet st1 = sigma" by (simp add: init_def)
  with p t q s2 s3 show ?thesis by auto
qed

text \<open>
  C10: when the pipeline ends without an error, no position is mapped to the
  empty-string marker, and neither automaton has a transition labelled with it. When the
  marker occurs in the expression text it is in the alphabet all the same, so it passes
  the alphabet check of the simulator, and every string that holds it is rejected, on
  either automaton.
\<close>

theorem epsilon_marker:
  assumes "alphabet_order regex sigma"
    and "process (init sigma regex) = Some (Inr st)"
  shows "(\<forall>p. map_of (pos_to_symbol st) p \<noteq> Some c_eps) \<and>
         (\<exists>d md. dfa st = Some d \<and> minimized_dfa st = Some md \<and>
            (\<forall>q. map_of (transitions d) (q, c_eps) = None) \<and>
            (\<forall>q. map_of (transitions md) (q, c_eps) = None)) \<and>
         (c_eps \<in> set regex \<longrightarrow>
            c_eps \<in> set (alphabet st) \<and>
            (\<forall>w. c_eps \<in> set w \<longrightarrow>
               simulate_dfa st w True = Inr False \<and> simulate_dfa st w False = Inr False))"
proof -
  from process_stages[OF assms(2)] obtain st1 sts trns finals P md where
    p: "parse_regex (init sigma regex) = Inr st1"
    and t: "construct_table st1 = Some (Inr (sts, trns, finals))"
    and d: "dfa st = Some \<lparr>states = length sts, initial = 0, final_states = finals,
                            transitions = trns\<rparr>"
    and q: "quotient_dfa \<lparr>states = length sts, initial = 0, final_states = finals,
                           transitions = trns\<rparr> P = Inr md"
    and m: "minimized_dfa st = Some md"
    and ps: "pos_to_symbol st = pos_to_symbol st1" and a: "alphabet st = sigma"
    by blast
  let ?d = "\<lparr>states = length sts, initial = 0, final_states = finals, transitions = trns\<rparr>"
  have 1: "map_of (pos_to_symbol st) p \<noteq> Some c_eps" for p
    unfolding ps by (rule parse_regex_no_eps_position[OF p])
  have e: "((q, c_eps), q') \<notin> set trns" for q q'
    using construct_table_symbol[OF t, of q c_eps q'] 1 ps by auto
  have 2: "map_of (transitions ?d) (q, c_eps) = None" for q
  proof (cases "map_of trns (q, c_eps)")
    case (Some q')
    from map_of_SomeD[OF this] e show ?thesis by blast
  qed simp
  have 3: "map_of (transitions md) (i, c_eps) = None" for i
  proof (cases "map_of (transitions md) (i, c_eps)")
    case (Some j)
    from quotient_dfa_fields[OF q] obtain nt where
      f: "foldE (map_transition (state_mapping P)) (transitions ?d) [] = Inr nt"
      and nt: "transitions md = nt" by blast
    from map_transition_origin[OF f Some[unfolded nt]] e show ?thesis by auto
  qed simp
  have 4: "simulate_dfa st w True = Inr False \<and> simulate_dfa st w False = Inr False"
    if "c_eps \<in> set w" for w
    using run_dfa_no_transition[OF _ that, of ?d] run_dfa_no_transition[OF _ that, of md]
      2 3 d m by (simp add: simulate_dfa_def)
  have 5: "c_eps \<in> set (alphabet st)" if "c_eps \<in> set regex"
    using assms(1) that unfolding a alphabet_order_def metachars_def by simp
  from 1 2 3 4 5 d m show ?thesis by simp
qed

theorem epsilon_marker_witness:
  "alphabet_order [97, c_eps] [97, c_eps] \<and>
   (\<exists>st. process (init [97, c_eps] [97, c_eps]) = Some (Inr st) \<and>
      c_eps \<in> set (alphabet st) \<and> pos_to_symbol st = [(1, 97), (2, c_hash)] \<and>
      simulate_dfa st [97] True = Inr True \<and>
      simulate_dfa st [97, c_eps] True = Inr False \<and>
      simulate_dfa st [97, c_eps] False = Inr False)"
proof -
  have o: "alphabet_order [97, c_eps] [97, c_eps]"
    by (auto simp: alphabet_order_def metachars_def)
  have e: "(case process (init [97, c_eps] [97, c_eps]) of
              Some (Inr st) \<Rightarrow>
                pos_to_symbol st = [(1, 97), (2, c_hash)] \<and>
                simulate_dfa st [97] True = Inr True
            | _ \<Rightarrow> False)"
    by code_simp
  then obtain st where p: "process (init [97, c_eps] [97, c_eps]) = Some (Inr st)"
    and v: "pos_to_symbol st = [(1, 97), (2, c_hash)]" "simulate_dfa st [97] True = Inr True"
    by (cases "process (init [97, c_eps] [97, c_eps])"; simp split: sum.splits)
  from epsilon_marker[OF o p] have "c_eps \<in> set (alphabet st)"
    "simulate_dfa st [97, c_eps] True = Inr False"
    "simulate_dfa st [97, c_eps] False = Inr False" by simp_all
  with o p v show ?thesis by blast
qed

end
